theory Spec2Isabelle
  imports Main
begin

section \<open>The client sequence number manager\<close>

text \<open>
  The source is the class \<^verbatim>\<open>ClientSequenceNumberManager\<close>. It keeps a
  \<^verbatim>\<open>Map\<close> from client identifiers to heap nodes and a \<^verbatim>\<open>Heap\<close> of the clients' states,
  ordered by \<^verbatim>\<open>referenceSequenceNumber\<close>. The client states are JavaScript objects that the
  map, the heap and the caller reach by reference and that \<^verbatim>\<open>upsertClient\<close> changes in
  place, so the model has an explicit memory: every object lives at an address, and a
  reference is an address.
\<close>

subsection \<open>Values and objects\<close>

type_synonym addr = nat

text \<open>
  The parameter \<^verbatim>\<open>serverMetadata\<close> has the type \<^verbatim>\<open>any\<close>. The source only tests it for
  truthiness and stores it: a value is a primitive or a reference to an object (whose
  content the source never reads). Numbers are modelled by integers and the value NaN.
\<close>

datatype jsval =
    JUndefined | JNull | JBoolean bool | JNumber int | JNaN | JString string | JObject addr

text \<open>The test \<^verbatim>\<open>if (serverMetadata)\<close>: JavaScript's conversion of a value to a boolean.\<close>

fun truthy :: "jsval \<Rightarrow> bool" where
  "truthy JUndefined = False"
| "truthy JNull = False"
| "truthy (JBoolean b) = b"
| "truthy (JNumber n) = (n \<noteq> 0)"
| "truthy JNaN = False"
| "truthy (JString s) = (s \<noteq> [])"
| "truthy (JObject a) = True"

text \<open>
  The state of one client, as the object literals of the source build it. The sequence
  numbers and the timestamp are JavaScript numbers that hold integers; \<open>scopes\<close> is a
  reference to an array of strings; \<open>clientId\<close> is \<^verbatim>\<open>undefined\<close> in the comparer's least
  element only.
\<close>

record IClientSequenceNumber =
  canEvict :: bool
  clientId :: "string option"
  clientSequenceNumber :: int
  lastUpdate :: int
  nack :: bool
  referenceSequenceNumber :: int
  scopes :: addr
  serverMetadata :: jsval

subsection \<open>The state: the manager's fields and the memory\<close>

text \<open>
  \<open>clientNodeMap\<close> is the \<^verbatim>\<open>Map\<close> of the manager, in insertion order, and \<open>L\<close> is the array
  of the manager's heap \<^verbatim>\<open>clientSeqNumbers\<close>: references to heap nodes. The memory holds
  the heap nodes (an object with the fields \<^verbatim>\<open>value\<close>, a reference to a client state, and
  \<^verbatim>\<open>position\<close>; one function per field), the client states, the arrays of strings and the
  arrays of references to client states. Addresses are given out in increasing order:
  \<open>nxt\<close> is the first address not in use.
\<close>

record state =
  clientNodeMap :: "(string \<times> addr) list"
  L :: "addr list"
  node_value :: "addr \<Rightarrow> addr"
  node_position :: "addr \<Rightarrow> nat"
  client_object :: "addr \<Rightarrow> IClientSequenceNumber"
  string_array :: "addr \<Rightarrow> string list"
  client_array :: "addr \<Rightarrow> addr list"
  nxt :: addr

text \<open>Allocation: an array literal, an object literal.\<close>

definition new_string_array :: "string list \<Rightarrow> state \<Rightarrow> addr \<times> state" where
  "new_string_array xs s =
     (nxt s, s\<lparr>string_array := (string_array s)(nxt s := xs), nxt := nxt s + 1\<rparr>)"

definition new_client_array :: "addr list \<Rightarrow> state \<Rightarrow> addr \<times> state" where
  "new_client_array xs s =
     (nxt s, s\<lparr>client_array := (client_array s)(nxt s := xs), nxt := nxt s + 1\<rparr>)"

definition new_client_object :: "IClientSequenceNumber \<Rightarrow> state \<Rightarrow> addr \<times> state" where
  "new_client_object c s =
     (nxt s, s\<lparr>client_object := (client_object s)(nxt s := c), nxt := nxt s + 1\<rparr>)"

subsection \<open>The map\<close>

text \<open>
  A JavaScript \<^verbatim>\<open>Map\<close> keeps its entries in insertion order: \<^verbatim>\<open>get\<close> is \<^const>\<open>map_of\<close>,
  \<^verbatim>\<open>size\<close> is \<^const>\<open>length\<close>, \<^verbatim>\<open>set\<close> replaces the value of a key that is present and appends
  an entry otherwise, \<^verbatim>\<open>delete\<close> removes the entry of the key.
\<close>

fun Map_set :: "'k \<Rightarrow> 'v \<Rightarrow> ('k \<times> 'v) list \<Rightarrow> ('k \<times> 'v) list" where
  "Map_set k v [] = [(k, v)]"
| "Map_set k v (e # m) = (if fst e = k then (k, v) # m else e # Map_set k v m)"

definition Map_delete :: "'k \<Rightarrow> ('k \<times> 'v) list \<Rightarrow> ('k \<times> 'v) list" where
  "Map_delete k m = filter (\<lambda>e. fst e \<noteq> k) m"

subsection \<open>The comparer\<close>

text \<open>
  The comparer of the source, \<^verbatim>\<open>SequenceNumberComparer\<close>: \<^verbatim>\<open>compare\<close> on references to client
  states (it reads the reference sequence numbers through the references) and the least
  element \<^verbatim>\<open>min\<close>, whose \<open>scopes\<close> is an empty array of its own.
\<close>

definition compare :: "state \<Rightarrow> addr \<Rightarrow> addr \<Rightarrow> int" where
  "compare s a b =
     referenceSequenceNumber (client_object s a) - referenceSequenceNumber (client_object s b)"

definition comparer_min :: "addr \<Rightarrow> IClientSequenceNumber" where
  "comparer_min empty_scopes =
     \<lparr> canEvict = True, clientId = None, clientSequenceNumber = 0, lastUpdate = - 1,
       nack = False, referenceSequenceNumber = - 1, scopes = empty_scopes,
       serverMetadata = JUndefined \<rparr>"

subsection \<open>The heap\<close>

text \<open>
  Modelled from the spec: the class \<^verbatim>\<open>Heap\<close> of \<^verbatim>\<open>@fluidframework/common-utils\<close> (with its
  methods \<^verbatim>\<open>add\<close>, \<^verbatim>\<open>update\<close>, \<^verbatim>\<open>remove\<close>, \<^verbatim>\<open>peek\<close> and \<^verbatim>\<open>count\<close>), which the manager
  uses and which is not among the source files. The spec asks for an array-backed binary
  min-heap in which every entry knows its current array index, the index being updated on
  every swap during sift-up and sift-down, so that an entry whose key has changed is
  re-established from its known position and an entry is removed without a search. Here
  the entry is the node that \<^verbatim>\<open>add\<close> returns (the handle that the manager keeps in its
  map), slot 0 of the array holds a node for the comparer's least element \<^verbatim>\<open>min\<close>, the root
  is at index 1 and the parent of index \<open>k\<close> is \<open>k div 2\<close>. All the definitions of this
  subsection are that model: \<open>Heap_count\<close>, \<open>Heap_peek\<close>, \<open>Heap_swap\<close>, the sift-up
  \<open>fixup\<close> with its test \<open>isGreaterThanParent\<close> (true when the key of the parent of \<open>k\<close> is
  greater than the key at \<open>k\<close>), the sift-down \<open>fixdown\<close> with \<open>smaller_child\<close>,
  \<open>Heap_add\<close>, \<open>Heap_update\<close> and \<open>Heap_remove\<close>.
\<close>

text \<open>
  Modelled from the spec: \<^verbatim>\<open>count\<close> is the number of entries (the array without slot 0) and
  \<^verbatim>\<open>peek\<close> the node at the root, \<^verbatim>\<open>undefined\<close> when there is none.
\<close>

definition Heap_count :: "state \<Rightarrow> int" where
  "Heap_count s = int (length (L s)) - 1"

definition Heap_peek :: "state \<Rightarrow> addr option" where
  "Heap_peek s = (if 1 < length (L s) then Some (L s ! 1) else None)"

text \<open>
  Modelled from the spec: a swap exchanges the nodes at two indices and records in each
  its new index.
\<close>

definition Heap_swap :: "nat \<Rightarrow> nat \<Rightarrow> state \<Rightarrow> state" where
  "Heap_swap k j s =
     (let tmp = L s ! k; other = L s ! j
      in s\<lparr>L := (L s)[k := other, j := tmp],
           node_position := (node_position s)(other := k, tmp := j)\<rparr>)"

text \<open>
  Modelled from the spec: sift-up. While the key of the parent is greater than the key at
  \<open>k\<close>, the two are swapped and \<open>k\<close> moves to the parent.
\<close>

definition isGreaterThanParent :: "nat \<Rightarrow> state \<Rightarrow> bool" where
  "isGreaterThanParent k s =
     (k > 1 \<and> compare s (node_value s (L s ! (k div 2))) (node_value s (L s ! k)) > 0)"

function fixup :: "nat \<Rightarrow> state \<Rightarrow> state" where
  "fixup k s =
     (if isGreaterThanParent k s then fixup (k div 2) (Heap_swap k (k div 2) s) else s)"
  by pat_completeness auto
termination
  by (relation "measure (\<lambda>(k, s). k)") (auto simp: isGreaterThanParent_def)

declare fixup.simps [simp del]

text \<open>
  Modelled from the spec: sift-down. While \<open>k\<close> has a child, the child with the smaller key
  is taken (the left one when there is no right one); when the key at \<open>k\<close> is greater than
  that child's, the two are swapped and \<open>k\<close> moves to the child.
\<close>

definition smaller_child :: "nat \<Rightarrow> state \<Rightarrow> nat" where
  "smaller_child k s =
     (let j = 2 * k
      in if int j < Heap_count s
            \<and> compare s (node_value s (L s ! j)) (node_value s (L s ! (j + 1))) > 0
         then j + 1 else j)"

lemma Heap_swap_length [simp]: "length (L (Heap_swap k j s)) = length (L s)"
  by (simp add: Heap_swap_def Let_def)

lemma compare_same [simp]: "compare s a a = 0"
  by (simp add: compare_def)

function fixdown :: "nat \<Rightarrow> state \<Rightarrow> state" where
  "fixdown k s =
     (if int (2 * k) \<le> Heap_count s then
        (let j = smaller_child k s
         in if compare s (node_value s (L s ! k)) (node_value s (L s ! j)) \<le> 0 then s
            else fixdown j (Heap_swap k j s))
      else s)"
  by pat_completeness auto
termination
proof (relation "measure (\<lambda>(k, s). length (L s) - k)")
  show "wf (measure (\<lambda>(k, s). length (L s) - k))" by simp
next
  fix k :: nat and s :: state and j :: nat
  assume c: "int (2 * k) \<le> Heap_count s" and j: "j = smaller_child k s"
    and n: "\<not> compare s (node_value s (L s ! k)) (node_value s (L s ! j)) \<le> 0"
  from n have "j \<noteq> k" by auto
  moreover from j have "j = 2 * k \<or> j = 2 * k + 1 \<and> int (2 * k) < Heap_count s"
    by (auto simp: smaller_child_def Let_def)
  ultimately have "k < j \<and> j < length (L s)"
    using c by (auto simp: Heap_count_def)
  then show "((j, Heap_swap k j s), (k, s)) \<in> measure (\<lambda>(k, s). length (L s) - k)"
    by auto
qed

declare fixdown.simps [simp del]

text \<open>
  Modelled from the spec: \<^verbatim>\<open>add\<close> makes a node for the value at the end of the array and
  sifts it up; \<^verbatim>\<open>update\<close> re-establishes a node whose value's key has changed, sifting up
  from its position when its parent's key is greater and down otherwise; \<^verbatim>\<open>remove\<close> swaps
  the node with the last one, drops the last slot and re-establishes the node that took
  its place.
\<close>

definition Heap_add :: "addr \<Rightarrow> state \<Rightarrow> addr \<times> state" where
  "Heap_add x s =
     (let node = nxt s;
          s1 = s\<lparr>node_value := (node_value s)(node := x),
                 node_position := (node_position s)(node := length (L s)),
                 nxt := nxt s + 1\<rparr>;
          s2 = s1\<lparr>L := L s1 @ [node]\<rparr>
      in (node, fixup (length (L s2) - 1) s2))"

definition Heap_update :: "addr \<Rightarrow> state \<Rightarrow> state" where
  "Heap_update node s =
     (let k = node_position s node
      in if isGreaterThanParent k s then fixup k s else fixdown k s)"

definition Heap_remove :: "addr \<Rightarrow> state \<Rightarrow> state" where
  "Heap_remove node s =
     (let position = node_position s node;
          s1 = Heap_swap position (length (L s) - 1) s;
          s2 = s1\<lparr>L := butlast (L s1)\<rparr>
      in if position \<noteq> length (L s2) then Heap_update (L s2 ! position) s2 else s2)"

subsection \<open>The manager's methods\<close>

text \<open>
  The constructor: the comparer's least element (an object literal with an empty array for
  its scopes), an empty map, and a heap whose array holds the node of the least element
  in slot 0.
\<close>

definition init :: state where
  "init =
     \<lparr> clientNodeMap = [],
       L = [2],
       node_value = (\<lambda>a. 0)(2 := 1),
       node_position = (\<lambda>a. 0),
       client_object = (\<lambda>a. comparer_min 0),
       string_array = (\<lambda>a. []),
       client_array = (\<lambda>a. []),
       nxt = 3 \<rparr>"

definition has :: "state \<Rightarrow> string \<Rightarrow> bool" where
  "has s cid = (map_of (clientNodeMap s) cid \<noteq> None)"

text \<open>\<^verbatim>\<open>get\<close> and \<^verbatim>\<open>peek\<close> return a reference to the tracked object itself, or \<^verbatim>\<open>undefined\<close>.\<close>

definition get :: "state \<Rightarrow> string \<Rightarrow> addr option" where
  "get s cid =
     (case map_of (clientNodeMap s) cid of
        None \<Rightarrow> None
      | Some node \<Rightarrow> Some (node_value s node))"

definition count :: "state \<Rightarrow> nat" where
  "count s = length (clientNodeMap s)"

definition peek :: "state \<Rightarrow> addr option" where
  "peek s =
     (case Heap_peek s of
        None \<Rightarrow> None
      | Some node \<Rightarrow> Some (node_value s node))"

text \<open>
  \<^verbatim>\<open>cloneValues\<close>: a new array, and for every entry of the map, in its order, a new object
  with the fields of the tracked one (\<^verbatim>\<open>{ ...source }\<close> copies the values of the fields, so
  the copy's \<open>scopes\<close> is the same reference as the source's).
\<close>

fun cloneValues_loop :: "(string \<times> addr) list \<Rightarrow> addr \<Rightarrow> state \<Rightarrow> state" where
  "cloneValues_loop [] clients s = s"
| "cloneValues_loop (e # es) clients s =
     (let source = node_value s (snd e);
          (copy, s1) = new_client_object (client_object s source) s;
          s2 = s1\<lparr>client_array := (client_array s1)(clients := client_array s1 clients @ [copy])\<rparr>
      in cloneValues_loop es clients s2)"

definition cloneValues :: "state \<Rightarrow> addr \<times> state" where
  "cloneValues s =
     (let (clients, s1) = new_client_array [] s
      in (clients, cloneValues_loop (clientNodeMap s1) clients s1))"

text \<open>
  \<^verbatim>\<open>upsertClient\<close>. The parameters \<open>scopes\<close> and \<open>nack\<close> have default values: \<open>None\<close> is an
  argument left out, for which the source evaluates the default (a new empty array,
  \<^verbatim>\<open>false\<close>) on entry. A \<open>scopes\<close> that is given is a reference to the caller's array.
\<close>

definition upsertClient ::
  "string \<Rightarrow> int \<Rightarrow> int \<Rightarrow> int \<Rightarrow> bool \<Rightarrow> addr option \<Rightarrow> bool option \<Rightarrow> jsval \<Rightarrow> state
     \<Rightarrow> bool \<times> state" where
  "upsertClient cid clientSequenceNumber' referenceSequenceNumber' timestamp canEvict'
       scopes_arg nack_arg serverMetadata' s0 =
     (let (scopes', s) = (case scopes_arg of None \<Rightarrow> new_string_array [] s0 | Some a \<Rightarrow> (a, s0));
          nack' = (case nack_arg of None \<Rightarrow> False | Some b \<Rightarrow> b)
      in case map_of (clientNodeMap s) cid of
           Some client \<Rightarrow>
             (let v = node_value s client;
                  s1 = s\<lparr>client_object := (client_object s)
                         (v := (client_object s v)
                            \<lparr>referenceSequenceNumber := referenceSequenceNumber',
                             clientSequenceNumber := clientSequenceNumber',
                             lastUpdate := timestamp,
                             nack := nack'\<rparr>)\<rparr>;
                  s2 = (if truthy serverMetadata'
                        then s1\<lparr>client_object := (client_object s1)
                               (v := (client_object s1 v)\<lparr>serverMetadata := serverMetadata'\<rparr>)\<rparr>
                        else s1)
              in (False, Heap_update client s2))
         | None \<Rightarrow>
             (let (x, s1) = new_client_object
                    \<lparr> canEvict = canEvict', clientId = Some cid,
                      clientSequenceNumber = clientSequenceNumber', lastUpdate = timestamp,
                      nack = nack', referenceSequenceNumber = referenceSequenceNumber',
                      scopes = scopes', serverMetadata = serverMetadata' \<rparr> s;
                  (newNode, s2) = Heap_add x s1
              in (True, s2\<lparr>clientNodeMap := Map_set cid newNode (clientNodeMap s2)\<rparr>)))"

definition removeClient :: "string \<Rightarrow> state \<Rightarrow> bool \<times> state" where
  "removeClient cid s =
     (case map_of (clientNodeMap s) cid of
        None \<Rightarrow> (False, s)
      | Some details \<Rightarrow>
          (let s1 = Heap_remove details s
           in (True, s1\<lparr>clientNodeMap := Map_delete cid (clientNodeMap s1)\<rparr>)))"

text \<open>
  \<^verbatim>\<open>getMinimumSequenceNumber\<close>. When the heap's count is positive its array has a slot 1, so
  \<^const>\<open>Heap_peek\<close> is a node there.
\<close>

definition getMinimumSequenceNumber :: "state \<Rightarrow> int" where
  "getMinimumSequenceNumber s =
     (if Heap_count s > 0
      then referenceSequenceNumber (client_object s (node_value s (the (Heap_peek s))))
      else - 1)"

subsection \<open>Sequences of calls\<close>

text \<open>
  A caller's calls on one manager. A call of \<^verbatim>\<open>upsertClient\<close> that passes scopes passes an
  array literal, which is evaluated (a new array) before the call.
\<close>

datatype call =
    UpsertClient string int int int bool "string list option" "bool option" jsval
  | RemoveClient string

fun pass_scopes :: "string list option \<Rightarrow> state \<Rightarrow> addr option \<times> state" where
  "pass_scopes None s = (None, s)"
| "pass_scopes (Some xs) s = (let (a, s1) = new_string_array xs s in (Some a, s1))"

fun do_call :: "call \<Rightarrow> state \<Rightarrow> bool \<times> state" where
  "do_call (UpsertClient cid csn rsn ts ce sc nk md) s =
     (let (a, s1) = pass_scopes sc s in upsertClient cid csn rsn ts ce a nk md s1)"
| "do_call (RemoveClient cid) s = removeClient cid s"

fun run :: "call list \<Rightarrow> state \<Rightarrow> state" where
  "run [] s = s"
| "run (c # cs) s = run cs (snd (do_call c s))"

text \<open>What a reader of a tracked client sees through a reference: the fields and the scopes.\<close>

definition client_view :: "state \<Rightarrow> addr \<Rightarrow> IClientSequenceNumber \<times> string list" where
  "client_view s a = (client_object s a, string_array s (scopes (client_object s a)))"

text \<open>A concrete state: one client, \<^verbatim>\<open>"X"\<close>, tracked with a scope and server metadata.\<close>

definition tracking_X :: state where
  "tracking_X =
     run [UpsertClient ''X'' 1 0 100 True (Some [''doc:read'']) None (JString ''m'')] init"

subsection \<open>What a caller observes\<close>

text \<open>
  The clients that are tracked, the state of a tracked client (the object that \<^verbatim>\<open>get\<close>
  returns a reference to) and the content of its scopes.
\<close>

definition tracked :: "state \<Rightarrow> string set" where
  "tracked s = {cid. has s cid}"

definition tracked_client :: "state \<Rightarrow> string \<Rightarrow> IClientSequenceNumber" where
  "tracked_client s cid = client_object s (the (get s cid))"

definition stored_scopes :: "state \<Rightarrow> string \<Rightarrow> string list" where
  "stored_scopes s cid = string_array s (scopes (tracked_client s cid))"

text \<open>
  The scopes stored for every client: the content of the scopes of a tracked client, nothing
  for a client that is not tracked.
\<close>

definition tracked_scopes :: "state \<Rightarrow> string \<Rightarrow> string list option" where
  "tracked_scopes s cid = (if has s cid then Some (stored_scopes s cid) else None)"

text \<open>
  What a list of calls says about scopes, read off the calls alone, without the manager:
  \<open>first_supplied_scopes\<close> keeps for every client the scopes supplied by the call of
  \<^verbatim>\<open>upsertClient\<close> that began to track it (the empty list when that call passed none).
  A call of \<^verbatim>\<open>upsertClient\<close> for a client that has an entry changes nothing, a call of
  \<^verbatim>\<open>removeClient\<close> drops the client's entry.
\<close>

fun first_supplied_step :: "call \<Rightarrow> (string \<Rightarrow> string list option) \<Rightarrow> string \<Rightarrow> string list option" where
  "first_supplied_step (UpsertClient cid csn rsn ts ce sc nk md) m =
     (case m cid of
        Some xs \<Rightarrow> m
      | None \<Rightarrow> m(cid \<mapsto> (case sc of None \<Rightarrow> [] | Some xs \<Rightarrow> xs)))"
| "first_supplied_step (RemoveClient cid) m = m(cid := None)"

fun first_supplied_scopes :: "call list \<Rightarrow> (string \<Rightarrow> string list option) \<Rightarrow> string \<Rightarrow> string list option" where
  "first_supplied_scopes [] m = m"
| "first_supplied_scopes (c # cs) m = first_supplied_scopes cs (first_supplied_step c m)"

text \<open>
  The client identifiers of the entries of the heap, in the order of its array (slot 0,
  the comparer's least element, is not an entry).
\<close>

definition heap_client_ids :: "state \<Rightarrow> string option list" where
  "heap_client_ids s = map (\<lambda>n. clientId (client_object s (node_value s n))) (tl (L s))"

text \<open>
  The kind of a call and the client it is about.
\<close>

fun is_upsert :: "call \<Rightarrow> bool" where
  "is_upsert (UpsertClient cid csn rsn ts ce sc nk md) = True"
| "is_upsert (RemoveClient cid) = False"

fun call_id :: "call \<Rightarrow> string" where
  "call_id (UpsertClient cid csn rsn ts ce sc nk md) = cid"
| "call_id (RemoveClient cid) = cid"

text \<open>
  Concrete calls: three clients are inserted and one of them is updated.
\<close>

definition three_clients :: "call list" where
  "three_clients =
     [UpsertClient ''A'' 1 5 100 True None None JUndefined,
      UpsertClient ''B'' 1 2 100 True (Some [''doc:read'']) None JUndefined,
      UpsertClient ''C'' 1 9 100 True None None JUndefined,
      UpsertClient ''B'' 2 12 101 True None None JUndefined]"

text \<open>
  What a caller can do with the array that \<^verbatim>\<open>cloneValues\<close> returned (a reference \<open>res\<close>):
  change the array itself (any new content), assign fields of the element at an index (any
  new record of fields), or change in place the array of scopes that the element at an
  index refers to. An index outside the array reads \<^verbatim>\<open>undefined\<close>, on which an assignment
  throws and changes nothing.
\<close>

datatype mutation =
    ReplaceSequence "addr list"
  | ReplaceElement nat IClientSequenceNumber
  | ReplaceScopes nat "string list"

fun mutate :: "addr \<Rightarrow> mutation \<Rightarrow> state \<Rightarrow> state" where
  "mutate res (ReplaceSequence xs) s =
     s\<lparr>client_array := (client_array s)(res := xs)\<rparr>"
| "mutate res (ReplaceElement i r) s =
     (if i < length (client_array s res)
      then s\<lparr>client_object := (client_object s)(client_array s res ! i := r)\<rparr>
      else s)"
| "mutate res (ReplaceScopes i xs) s =
     (if i < length (client_array s res)
      then s\<lparr>string_array := (string_array s)
             (scopes (client_object s (client_array s res ! i)) := xs)\<rparr>
      else s)"

text \<open>
  What a caller observes of the manager: the results of \<^verbatim>\<open>peek\<close> and \<^verbatim>\<open>get\<close> (the references
  and what is seen through them) and of \<^verbatim>\<open>getMinimumSequenceNumber\<close>.
\<close>

definition observe ::
  "state \<Rightarrow> string \<Rightarrow>
     (addr option \<times> (IClientSequenceNumber \<times> string list) option)
     \<times> (addr option \<times> (IClientSequenceNumber \<times> string list) option) \<times> int" where
  "observe s cid =
     ((peek s, map_option (client_view s) (peek s)),
      (get s cid, map_option (client_view s) (get s cid)),
      getMinimumSequenceNumber s)"

text \<open>
  Concrete inputs: the clone of the state that tracks \<^verbatim>\<open>"X"\<close>, and that clone after
  \<^verbatim>\<open>doc:write\<close> has been pushed onto the scopes of the first element returned.
\<close>

definition clone_of_X :: "addr \<times> state" where
  "clone_of_X = cloneValues tracking_X"

definition clone_scopes_changed :: state where
  "clone_scopes_changed =
     mutate (fst clone_of_X) (ReplaceScopes 0 [''doc:read'', ''doc:write'']) (snd clone_of_X)"

section \<open>The deli checkpoint manager\<close>

text \<open>
  The source is \<^verbatim>\<open>createDeliCheckpointManagerFromCollection\<close>: it builds an object with two
  \<^verbatim>\<open>async\<close> methods, each of which makes one call on the \<^verbatim>\<open>checkpointService\<close> it was
  given and returns what that call returns.

  The interface \<^verbatim>\<open>ICheckpointService\<close> and the types \<^verbatim>\<open>IDeliState\<close>, \<^verbatim>\<open>IQueuedMessage\<close>,
  \<^verbatim>\<open>IDocumentRepository\<close> and \<^verbatim>\<open>ICheckpointRepository\<close> are imported from another package;
  they are parameters of the model (type variables \<open>'st\<close>, \<open>'msg\<close>, \<open>'dr\<close>, \<open>'cr\<close>, and a
  record of the two service methods).
\<close>

subsection \<open>Promises and calls of an asynchronous method\<close>

text \<open>
  The eventual state of a JavaScript promise: fulfilled with a value, rejected with an
  error, or never settled.
\<close>

datatype ('e, 'a) promise = Fulfilled 'a | Rejected 'e | Pending

text \<open>
  A call of a method that is declared to return a promise either returns one or throws
  before it does.
\<close>

datatype ('e, 'a) completion = Returns "('e, 'a) promise" | Throws 'e

text \<open>
  The body of each manager method is \<^verbatim>\<open>async (...) => { return call(...) }\<close>. An \<^verbatim>\<open>async\<close>
  function always returns a promise: when the body throws, the promise is rejected with the
  error thrown; when the body returns a promise, the promise returned settles as that one
  does.
\<close>

fun async_return :: "('e, 'a) completion \<Rightarrow> ('e, 'a) promise" where
  "async_return (Throws e) = Rejected e"
| "async_return (Returns p) = p"

text \<open>
  A service call acts on the storage behind the service (the type \<open>'w\<close>): it takes the
  storage as it is and returns its completion together with the storage as the call
  leaves it.
\<close>

record ('e, 'st, 'a, 'w) ICheckpointService =
  writeCheckpointToCollection ::
    "string \<Rightarrow> string \<Rightarrow> string \<Rightarrow> 'st \<Rightarrow> bool \<Rightarrow> 'w \<Rightarrow> ('e, 'a) completion \<times> 'w"
  removeCheckpointFromCollection ::
    "string \<Rightarrow> string \<Rightarrow> string \<Rightarrow> bool \<Rightarrow> 'w \<Rightarrow> ('e, 'a) completion \<times> 'w"

text \<open>
  Modelled from the spec: the enumeration \<^verbatim>\<open>CheckpointReason\<close>, which the source imports
  from \<^verbatim>\<open>../utils\<close> and which is not among the source files. The spec describes it as the
  enumerated trigger of a checkpoint and names a routine batch boundary, an idle flush, a
  client disconnect, a shutdown and a manual trigger.
\<close>

datatype CheckpointReason = BatchBoundary | IdleFlush | ClientDisconnect | Shutdown | Manual

record ('r, 'st, 'msg) ICheckpointParams =
  reason :: 'r
  deliState :: 'st
  deliCheckpointMessage :: 'msg
  kafkaCheckpointMessage :: "'msg option"
  clear :: "bool option"

record ('e, 'st, 'a, 'w, 'r, 'msg) IDeliCheckpointManager =
  writeCheckpoint :: "'st \<Rightarrow> bool \<Rightarrow> 'r \<Rightarrow> 'w \<Rightarrow> ('e, 'a) promise \<times> 'w"
  deleteCheckpoint ::
    "('r, 'st, 'msg) ICheckpointParams \<Rightarrow> bool \<Rightarrow> 'w \<Rightarrow> ('e, 'a) promise \<times> 'w"

text \<open>
  The arrow function behind \<^verbatim>\<open>writeCheckpoint\<close> declares two parameters,
  \<^verbatim>\<open>(checkpoint, isLocal)\<close>, while the interface and its callers pass three: JavaScript drops
  the third argument, so the model takes \<open>reason\<close> and does not use it. The parameters
  \<^verbatim>\<open>documentRepository\<close> and \<^verbatim>\<open>checkpointRepository\<close> are not used by the source either.
\<close>

definition createDeliCheckpointManagerFromCollection ::
  "string \<Rightarrow> string \<Rightarrow> 'dr \<Rightarrow> 'cr \<Rightarrow> ('e, 'st, 'a, 'w) ICheckpointService
     \<Rightarrow> ('e, 'st, 'a, 'w, 'r, 'msg) IDeliCheckpointManager" where
  "createDeliCheckpointManagerFromCollection tenantId documentId documentRepository
       checkpointRepository checkpointService =
     \<lparr> writeCheckpoint = (\<lambda>checkpoint isLocal reason w.
         (case writeCheckpointToCollection checkpointService documentId tenantId ''deli''
                 checkpoint isLocal w of
            (c, w') \<Rightarrow> (async_return c, w'))),
       deleteCheckpoint = (\<lambda>checkpointParams isLocal w.
         (case removeCheckpointFromCollection checkpointService documentId tenantId ''deli''
                 isLocal w of
            (c, w') \<Rightarrow> (async_return c, w'))) \<rparr>"

text \<open>
  Modelled from the spec: the checkpoint payload \<^verbatim>\<open>IDeliState\<close>, whose type is imported
  from another package. The manager passes it on without reading it, so it is a type
  parameter of the model; this record, used for concrete inputs only, follows the spec's
  persisted layout: the minimum sequence number, the global sequence number and the
  clients.
\<close>

record IDeliState =
  msn :: int
  globalSequenceNumber :: int
  clients :: "IClientSequenceNumber list"

text \<open>
  A service for observing what the manager asks of it: its storage is the list of the
  calls received, oldest first, and every call returns a promise that is fulfilled.
\<close>

datatype 'st service_call =
    WriteCheckpointToCollection string string string 'st bool
  | RemoveCheckpointFromCollection string string string bool

definition recordingService :: "(string, 'st, unit, 'st service_call list) ICheckpointService" where
  "recordingService =
     \<lparr> writeCheckpointToCollection = (\<lambda>documentId tenantId service checkpoint isLocal w.
         (Returns (Fulfilled ()),
          w @ [WriteCheckpointToCollection documentId tenantId service checkpoint isLocal])),
       removeCheckpointFromCollection = (\<lambda>documentId tenantId service isLocal w.
         (Returns (Fulfilled ()),
          w @ [RemoveCheckpointFromCollection documentId tenantId service isLocal])) \<rparr>"

text \<open>A service whose storage is failing: every write is rejected, every removal throws.\<close>

definition failingService :: "(string, 'st, unit, 'st service_call list) ICheckpointService" where
  "failingService =
     \<lparr> writeCheckpointToCollection = (\<lambda>documentId tenantId service checkpoint isLocal w.
         (Returns (Rejected ''storage unavailable''), w)),
       removeCheckpointFromCollection = (\<lambda>documentId tenantId service isLocal w.
         (Throws ''storage unavailable'', w)) \<rparr>"

text \<open>A call has failed with \<open>e\<close> when it threw \<open>e\<close> or returned a promise rejected with \<open>e\<close>.\<close>

fun failed_with :: "('e, 'a) completion \<Rightarrow> 'e \<Rightarrow> bool" where
  "failed_with (Throws e') e = (e' = e)"
| "failed_with (Returns p) e = (p = Rejected e)"

text \<open>Concrete inputs: a manager on the recording service, one on the failing service.\<close>

definition example_checkpoint :: IDeliState where
  "example_checkpoint = \<lparr> msn = 2, globalSequenceNumber = 9, clients = [] \<rparr>"

definition example_manager ::
  "(string, IDeliState, unit, IDeliState service_call list, CheckpointReason, nat)
     IDeliCheckpointManager" where
  "example_manager =
     createDeliCheckpointManagerFromCollection ''tenant'' ''doc'' () () recordingService"

definition failing_manager ::
  "(string, IDeliState, unit, IDeliState service_call list, CheckpointReason, nat)
     IDeliCheckpointManager" where
  "failing_manager =
     createDeliCheckpointManagerFromCollection ''tenant'' ''doc'' () () failingService"

section \<open>Invariants of the manager\<close>

text \<open>
  The definitions of this section describe the states that the manager reaches; they are
  used in the proofs only.
\<close>

subsection \<open>Binary heaps on lists of keys\<close>

text \<open>
  A list of keys is a heap when every index from 2 on holds a key that is not below the key
  at its parent (slot 0 is not part of the heap, slot 1 is the root).
\<close>

definition swap_list :: "'a list \<Rightarrow> nat \<Rightarrow> nat \<Rightarrow> 'a list" where
  "swap_list xs a b = xs[a := xs ! b, b := xs ! a]"

definition heap_list :: "int list \<Rightarrow> bool" where
  "heap_list ks = (\<forall>i. 2 \<le> i \<and> i < length ks \<longrightarrow> ks ! (i div 2) \<le> ks ! i)"

text \<open>
  While an entry is sifted, the order may fail at one index \<open>k\<close>: towards its parent
  (\<open>up_list\<close>), towards its children (\<open>down_list\<close>) or both (\<open>touch_list\<close>, after the key at
  \<open>k\<close> has changed). In each case the parent of \<open>k\<close> is not above the children of \<open>k\<close>
  (\<open>grand\<close>).
\<close>

definition grand :: "int list \<Rightarrow> nat \<Rightarrow> bool" where
  "grand ks k = (\<forall>i. 2 \<le> k \<and> i < length ks \<and> i div 2 = k \<longrightarrow> ks ! (k div 2) \<le> ks ! i)"

definition up_list :: "int list \<Rightarrow> nat \<Rightarrow> bool" where
  "up_list ks k = ((\<forall>i. 2 \<le> i \<and> i < length ks \<and> i \<noteq> k \<longrightarrow> ks ! (i div 2) \<le> ks ! i) \<and> grand ks k)"

definition down_list :: "int list \<Rightarrow> nat \<Rightarrow> bool" where
  "down_list ks k = ((\<forall>i. 2 \<le> i \<and> i < length ks \<and> i div 2 \<noteq> k \<longrightarrow> ks ! (i div 2) \<le> ks ! i) \<and> grand ks k)"

definition touch_list :: "int list \<Rightarrow> nat \<Rightarrow> bool" where
  "touch_list ks k = ((\<forall>i. 2 \<le> i \<and> i < length ks \<and> i \<noteq> k \<and> i div 2 \<noteq> k \<longrightarrow> ks ! (i div 2) \<le> ks ! i) \<and> grand ks k)"

text \<open>
  \<open>j\<close> is a child of \<open>k\<close> whose key is least among the children of \<open>k\<close>.
\<close>

definition least_child :: "int list \<Rightarrow> nat \<Rightarrow> nat \<Rightarrow> bool" where
  "least_child ks k j =
     (j < length ks \<and> j div 2 = k \<and> (\<forall>c. c < length ks \<and> c div 2 = k \<longrightarrow> ks ! j \<le> ks ! c))"

subsection \<open>The heap in the state\<close>

text \<open>
  The key of a node is the reference sequence number of the client state it refers to;
  \<open>keys\<close> lists the keys along the heap's array. \<open>pos_ok\<close>: the array is not empty and
  every node in it records the index at which it stands.
\<close>

definition key :: "state \<Rightarrow> addr \<Rightarrow> int" where
  "key s n = referenceSequenceNumber (client_object s (node_value s n))"

definition keys :: "state \<Rightarrow> int list" where
  "keys s = map (key s) (L s)"

definition pos_ok :: "state \<Rightarrow> bool" where
  "pos_ok s = (L s \<noteq> [] \<and> (\<forall>k < length (L s). node_position s (L s ! k) = k))"

subsection \<open>The invariant\<close>

text \<open>
  \<open>alloc_ok\<close>: the nodes of the heap, the client states they refer to and the scopes of these
  are at addresses already given out. \<open>map_ok\<close>: the map has one entry for a key, its nodes
  are distinct and are exactly the nodes of the heap after slot 0, and the node of a
  client refers to a state with that client's identifier. \<open>invar\<close> adds that the keys form
  a heap and that distinct nodes refer to distinct client states.
\<close>

definition alloc_ok :: "state \<Rightarrow> bool" where
  "alloc_ok s =
     (\<forall>n \<in> set (L s). n < nxt s \<and> node_value s n < nxt s
        \<and> scopes (client_object s (node_value s n)) < nxt s)"

definition map_ok :: "state \<Rightarrow> bool" where
  "map_ok s =
     (distinct (map fst (clientNodeMap s)) \<and> distinct (map snd (clientNodeMap s))
      \<and> set (map snd (clientNodeMap s)) = set (tl (L s))
      \<and> (\<forall>e \<in> set (clientNodeMap s).
            clientId (client_object s (node_value s (snd e))) = Some (fst e)))"

definition invar :: "state \<Rightarrow> bool" where
  "invar s =
     (pos_ok s \<and> heap_list (keys s) \<and> inj_on (node_value s) (set (L s))
      \<and> alloc_ok s \<and> map_ok s)"

subsection \<open>The two branches of \<^verbatim>\<open>upsertClient\<close>\<close>

text \<open>
  The state and the scopes with which the body of \<^verbatim>\<open>upsertClient\<close> starts, once the default
  of \<open>scopes\<close> has been evaluated; the tracked object as the update branch leaves it; the
  object that the insert branch builds.
\<close>

definition entry_state :: "addr option \<Rightarrow> state \<Rightarrow> state" where
  "entry_state sc s = (case sc of None \<Rightarrow> snd (new_string_array [] s) | Some a \<Rightarrow> s)"

definition entry_scopes :: "addr option \<Rightarrow> state \<Rightarrow> addr" where
  "entry_scopes sc s = (case sc of None \<Rightarrow> nxt s | Some a \<Rightarrow> a)"

definition updated_client ::
  "int \<Rightarrow> int \<Rightarrow> int \<Rightarrow> bool option \<Rightarrow> jsval \<Rightarrow> IClientSequenceNumber \<Rightarrow> IClientSequenceNumber" where
  "updated_client csn rsn ts nk md c =
     c\<lparr>referenceSequenceNumber := rsn, clientSequenceNumber := csn, lastUpdate := ts,
        nack := (case nk of None \<Rightarrow> False | Some b \<Rightarrow> b),
        serverMetadata := (if truthy md then md else serverMetadata c)\<rparr>"

definition inserted_client ::
  "string \<Rightarrow> int \<Rightarrow> int \<Rightarrow> int \<Rightarrow> bool \<Rightarrow> addr \<Rightarrow> bool option \<Rightarrow> jsval \<Rightarrow> IClientSequenceNumber" where
  "inserted_client cid csn rsn ts ce a nk md =
     \<lparr> canEvict = ce, clientId = Some cid, clientSequenceNumber = csn, lastUpdate = ts,
       nack = (case nk of None \<Rightarrow> False | Some b \<Rightarrow> b), referenceSequenceNumber = rsn,
       scopes = a, serverMetadata = md \<rparr>"

section \<open>Properties of the checkpoint manager\<close>

text \<open>
  Claim C6, as the code has it. \<^verbatim>\<open>writeCheckpoint(checkpoint, isLocal, reason)\<close> makes the one
  call \<^verbatim>\<open>writeCheckpointToCollection(documentId, tenantId, "deli", checkpoint, isLocal)\<close> on
  the service and returns its outcome: the payload and the tier flag reach the storage
  call under the key of the document, the tenant and the service name \<^verbatim>\<open>"deli"\<close>. The
  reason does not: the call, its outcome and the storage it leaves are the same for any
  two reasons.
\<close>

theorem writeCheckpoint_submits:
  "writeCheckpoint (createDeliCheckpointManagerFromCollection tenantId documentId dr cr svc)
       checkpoint isLocal reason w
     = (async_return (fst (writeCheckpointToCollection svc documentId tenantId ''deli''
                             checkpoint isLocal w)),
        snd (writeCheckpointToCollection svc documentId tenantId ''deli'' checkpoint isLocal w))
   \<and> snd (writeCheckpoint
            (createDeliCheckpointManagerFromCollection tenantId documentId dr cr recordingService)
            checkpoint isLocal reason calls)
     = calls @ [WriteCheckpointToCollection documentId tenantId ''deli'' checkpoint isLocal]
   \<and> writeCheckpoint (createDeliCheckpointManagerFromCollection tenantId documentId dr cr svc)
       checkpoint isLocal reason w
     = writeCheckpoint (createDeliCheckpointManagerFromCollection tenantId documentId dr cr svc)
       checkpoint isLocal reason' w"
  by (simp add: createDeliCheckpointManagerFromCollection_def recordingService_def
      split: prod.splits)

text \<open>
  Claim C6, as stated, asks that the storage call be tagged with the reason. Two writes of
  one checkpoint to one tier that differ in their reason (an idle flush, a shutdown) leave
  the same record of calls and the same outcome: the one call recorded carries no reason.
\<close>

theorem writeCheckpoint_reason_counterexample:
  "writeCheckpoint example_manager example_checkpoint False IdleFlush []
     = writeCheckpoint example_manager example_checkpoint False Shutdown []
   \<and> IdleFlush \<noteq> Shutdown
   \<and> snd (writeCheckpoint example_manager example_checkpoint False IdleFlush [])
     = [WriteCheckpointToCollection ''doc'' ''tenant'' ''deli'' example_checkpoint False]"
  by (simp add: example_manager_def createDeliCheckpointManagerFromCollection_def
      recordingService_def)

text \<open>
  Claim C7. The promise that \<^verbatim>\<open>writeCheckpoint\<close> returns is rejected with an error \<open>e\<close> exactly
  when the underlying \<^verbatim>\<open>writeCheckpointToCollection\<close> call failed with \<open>e\<close> (it threw \<open>e\<close>,
  or the promise it returned is rejected with \<open>e\<close>); no failure is turned into a fulfilled
  or a pending promise, and the storage is left as the service left it.
\<close>

theorem writeCheckpoint_failure_propagates:
  "(fst (writeCheckpoint (createDeliCheckpointManagerFromCollection tenantId documentId dr cr svc)
           checkpoint isLocal reason w) = Rejected e)
     = failed_with (fst (writeCheckpointToCollection svc documentId tenantId ''deli''
                           checkpoint isLocal w)) e
   \<and> snd (writeCheckpoint (createDeliCheckpointManagerFromCollection tenantId documentId dr cr svc)
           checkpoint isLocal reason w)
     = snd (writeCheckpointToCollection svc documentId tenantId ''deli'' checkpoint isLocal w)"
proof -
  obtain c w' where c: "writeCheckpointToCollection svc documentId tenantId ''deli''
      checkpoint isLocal w = (c, w')"
    by (cases "writeCheckpointToCollection svc documentId tenantId ''deli'' checkpoint isLocal w")
  show ?thesis
    by (cases c) (auto simp: createDeliCheckpointManagerFromCollection_def c)
qed

text \<open>On a service whose writes are rejected, the write of a checkpoint is rejected.\<close>

lemma writeCheckpoint_failing_example:
  "fst (writeCheckpoint failing_manager example_checkpoint True Manual [])
     = Rejected ''storage unavailable''"
  by (simp add: failing_manager_def createDeliCheckpointManagerFromCollection_def
      failingService_def)

text \<open>
  Claim C10. \<^verbatim>\<open>deleteCheckpoint\<close> does not depend on its \<^verbatim>\<open>checkpointParams\<close>: for any two
  values of the parameters and any tier flag it makes the same call
  \<^verbatim>\<open>removeCheckpointFromCollection(documentId, tenantId, "deli", isLocal)\<close>, with the same
  outcome and the same storage afterwards; neither the \<^verbatim>\<open>clear\<close> flag nor the reason is
  read.
\<close>

theorem deleteCheckpoint_ignores_params:
  "deleteCheckpoint (createDeliCheckpointManagerFromCollection tenantId documentId dr cr svc)
       p1 isLocal w
     = deleteCheckpoint (createDeliCheckpointManagerFromCollection tenantId documentId dr cr svc)
       p2 isLocal w
   \<and> deleteCheckpoint (createDeliCheckpointManagerFromCollection tenantId documentId dr cr svc)
       p1 isLocal w
     = (async_return (fst (removeCheckpointFromCollection svc documentId tenantId ''deli''
                             isLocal w)),
        snd (removeCheckpointFromCollection svc documentId tenantId ''deli'' isLocal w))
   \<and> snd (deleteCheckpoint
            (createDeliCheckpointManagerFromCollection tenantId documentId dr cr recordingService)
            p1 isLocal calls)
     = calls @ [RemoveCheckpointFromCollection documentId tenantId ''deli'' isLocal]"
  by (simp add: createDeliCheckpointManagerFromCollection_def recordingService_def
      split: prod.splits)

section \<open>Properties of the client sequence number manager\<close>

subsection \<open>What the heap operations leave unchanged\<close>

text \<open>
  Swapping, sifting and updating move references within the heap's array and set the
  nodes' positions; they leave the map, the nodes' values, the client states, the arrays
  and the allocation pointer as they are, and the array keeps its length.
\<close>

lemma Heap_swap_frame [simp]:
  "clientNodeMap (Heap_swap k j s) = clientNodeMap s"
  "node_value (Heap_swap k j s) = node_value s"
  "client_object (Heap_swap k j s) = client_object s"
  "string_array (Heap_swap k j s) = string_array s"
  "client_array (Heap_swap k j s) = client_array s"
  "nxt (Heap_swap k j s) = nxt s"
  by (simp_all add: Heap_swap_def Let_def)

lemma fixup_frame [simp]:
  "clientNodeMap (fixup k s) = clientNodeMap s \<and> node_value (fixup k s) = node_value s
   \<and> client_object (fixup k s) = client_object s \<and> string_array (fixup k s) = string_array s
   \<and> client_array (fixup k s) = client_array s \<and> nxt (fixup k s) = nxt s
   \<and> length (L (fixup k s)) = length (L s)"
proof (induction k s rule: fixup.induct)
  case (1 k s)
  show ?case
  proof (cases "isGreaterThanParent k s")
    case True
    with "1.IH" show ?thesis by (subst (1 2 3 4 5 6 7) fixup.simps) simp
  next
    case False
    then show ?thesis by (subst (1 2 3 4 5 6 7) fixup.simps) simp
  qed
qed

lemma fixdown_frame [simp]:
  "clientNodeMap (fixdown k s) = clientNodeMap s \<and> node_value (fixdown k s) = node_value s
   \<and> client_object (fixdown k s) = client_object s \<and> string_array (fixdown k s) = string_array s
   \<and> client_array (fixdown k s) = client_array s \<and> nxt (fixdown k s) = nxt s
   \<and> length (L (fixdown k s)) = length (L s)"
proof (induction k s rule: fixdown.induct)
  case (1 k s)
  show ?case
  proof (cases "int (2 * k) \<le> Heap_count s \<and>
      \<not> compare s (node_value s (L s ! k)) (node_value s (L s ! smaller_child k s)) \<le> 0")
    case True
    with "1.IH" [OF _ refl] show ?thesis by (subst (1 2 3 4 5 6 7) fixdown.simps) (simp add: Let_def)
  next
    case False
    then show ?thesis by (subst (1 2 3 4 5 6 7) fixdown.simps) (auto simp add: Let_def)
  qed
qed

lemma Heap_update_frame [simp]:
  "clientNodeMap (Heap_update n s) = clientNodeMap s" "node_value (Heap_update n s) = node_value s"
  "client_object (Heap_update n s) = client_object s" "string_array (Heap_update n s) = string_array s"
  "client_array (Heap_update n s) = client_array s" "nxt (Heap_update n s) = nxt s"
  "length (L (Heap_update n s)) = length (L s)"
  by (simp_all add: Heap_update_def Let_def)

lemma Heap_add_frame [simp]:
  "fst (Heap_add x s) = nxt s"
  "clientNodeMap (snd (Heap_add x s)) = clientNodeMap s"
  "node_value (snd (Heap_add x s)) = (node_value s)(nxt s := x)"
  "client_object (snd (Heap_add x s)) = client_object s"
  "string_array (snd (Heap_add x s)) = string_array s"
  "client_array (snd (Heap_add x s)) = client_array s"
  "nxt (snd (Heap_add x s)) = nxt s + 1"
  "length (L (snd (Heap_add x s))) = length (L s) + 1"
  by (simp_all add: Heap_add_def Let_def)

lemma map_of_Map_set [simp]:
  "map_of (Map_set k v m) k' = (if k' = k then Some v else map_of m k')"
  by (induction m) auto

lemma length_Map_set: "map_of m k = None \<Longrightarrow> length (Map_set k v m) = Suc (length m)"
  by (induction m) (auto split: if_splits)

lemma map_of_Map_delete [simp]:
  "map_of (Map_delete k m) k' = (if k' = k then None else map_of m k')"
  by (induction m) (auto simp: Map_delete_def)

subsection \<open>The result of \<^verbatim>\<open>upsertClient\<close>\<close>

text \<open>
  Claim C2. In every state, \<^verbatim>\<open>upsertClient\<close> on a client that is tracked returns \<^verbatim>\<open>false\<close>,
  leaves the count as it is and keeps the tracked object (the reference that \<^verbatim>\<open>get\<close>
  returns is the same), whose reference sequence number, client sequence number, last
  update and nack flag are afterwards the values supplied. On a client that is not
  tracked it returns \<^verbatim>\<open>true\<close>, the client is tracked afterwards, the count has grown by one
  and \<^verbatim>\<open>get\<close> returns an object with exactly the fields supplied.
\<close>

theorem upsertClient_returns:
  "(let r = upsertClient cid csn rsn ts ce sc nk md s; s' = snd r
    in if has s cid
       then \<not> fst r \<and> count s' = count s
            \<and> (\<exists>a. get s cid = Some a \<and> get s' cid = Some a
                  \<and> referenceSequenceNumber (client_object s' a) = rsn
                  \<and> clientSequenceNumber (client_object s' a) = csn
                  \<and> lastUpdate (client_object s' a) = ts
                  \<and> nack (client_object s' a) = (case nk of None \<Rightarrow> False | Some b \<Rightarrow> b))
       else fst r \<and> has s' cid \<and> count s' = count s + 1
            \<and> (\<exists>a. get s' cid = Some a
                  \<and> client_object s' a =
                      \<lparr> canEvict = ce, clientId = Some cid, clientSequenceNumber = csn,
                        lastUpdate = ts,
                        nack = (case nk of None \<Rightarrow> False | Some b \<Rightarrow> b),
                        referenceSequenceNumber = rsn,
                        scopes = (case sc of None \<Rightarrow> nxt s | Some b \<Rightarrow> b),
                        serverMetadata = md \<rparr>))"
proof (cases "has s cid")
  case True
  then obtain node where node: "map_of (clientNodeMap s) cid = Some node"
    by (auto simp: has_def)
  show ?thesis
    using True node
    by (cases sc)
       (simp_all add: upsertClient_def Let_def new_string_array_def get_def count_def)
next
  case False
  then have none: "map_of (clientNodeMap s) cid = None"
    by (simp add: has_def)
  show ?thesis
    using False none
    by (cases sc)
       (simp_all add: upsertClient_def Let_def new_string_array_def new_client_object_def
          get_def count_def has_def split_def length_Map_set)
qed

text \<open>
  On the state that tracks \<^verbatim>\<open>"X"\<close>: a further \<^verbatim>\<open>upsertClient("X", 2, 3, 101, true)\<close> returns
  \<^verbatim>\<open>false\<close> and the reference sequence number of \<^verbatim>\<open>"X"\<close> is 3 afterwards; a call for
  \<^verbatim>\<open>"Y"\<close> returns \<^verbatim>\<open>true\<close> and the count is 2.
\<close>

theorem upsertClient_returns_witness:
  "has tracking_X ''X''
   \<and> \<not> fst (upsertClient ''X'' 2 3 101 True None None JUndefined tracking_X)
   \<and> referenceSequenceNumber
        (tracked_client (snd (upsertClient ''X'' 2 3 101 True None None JUndefined tracking_X))
           ''X'') = 3
   \<and> \<not> has tracking_X ''Y''
   \<and> fst (upsertClient ''Y'' 1 0 100 True None None JUndefined tracking_X)
   \<and> count (snd (upsertClient ''Y'' 1 0 100 True None None JUndefined tracking_X)) = 2"
proof -
  have x: "has tracking_X ''X''" by code_simp
  have y: "\<not> has tracking_X ''Y''" by code_simp
  have c: "count tracking_X = 1" by code_simp
  show ?thesis
    using x y c
      upsertClient_returns[of "''X''" 2 3 101 True None None JUndefined tracking_X]
      upsertClient_returns[of "''Y''" 1 0 100 True None None JUndefined tracking_X]
    by (auto simp: Let_def tracked_client_def)
qed

subsection \<open>Server metadata\<close>

text \<open>
  Claim C5. When \<^verbatim>\<open>upsertClient\<close> is called for a client that is tracked, the stored
  \<^verbatim>\<open>serverMetadata\<close> is afterwards the value supplied when that value is non-empty in the
  sense of the source's test \<^verbatim>\<open>if (serverMetadata)\<close> (it is truthy: not \<^verbatim>\<open>undefined\<close>,
  \<^verbatim>\<open>null\<close>, \<^verbatim>\<open>false\<close>, zero, NaN or the empty string), and is what it was before otherwise;
  in particular a call that supplies no value does not clear it.
\<close>

theorem upsertClient_serverMetadata:
  "get s cid = Some a \<Longrightarrow>
   serverMetadata (client_object (snd (upsertClient cid csn rsn ts ce sc nk md s)) a)
     = (if truthy md then md else serverMetadata (client_object s a))"
  by (cases sc)
     (auto simp: upsertClient_def Let_def new_string_array_def get_def
        split: option.splits)

text \<open>
  The theorem at work on the state that tracks \<^verbatim>\<open>"X"\<close> with the metadata \<^verbatim>\<open>"m"\<close>: the empty
  string and no value leave \<^verbatim>\<open>"m"\<close>, the number 7 replaces it.
\<close>

theorem upsertClient_serverMetadata_witness:
  "get tracking_X ''X'' = Some 4
   \<and> serverMetadata (client_object
        (snd (upsertClient ''X'' 2 3 101 True None None (JString []) tracking_X)) 4) = JString ''m''
   \<and> serverMetadata (client_object
        (snd (upsertClient ''X'' 2 3 101 True None None JUndefined tracking_X)) 4) = JString ''m''
   \<and> serverMetadata (client_object
        (snd (upsertClient ''X'' 2 3 101 True None None (JNumber 7) tracking_X)) 4) = JNumber 7"
proof -
  have g: "get tracking_X ''X'' = Some 4" by code_simp
  have m: "serverMetadata (client_object tracking_X 4) = JString ''m''" by code_simp
  show ?thesis
    using g m
      upsertClient_serverMetadata [OF g, of 2 3 101 True None None "JString []"]
      upsertClient_serverMetadata [OF g, of 2 3 101 True None None JUndefined]
      upsertClient_serverMetadata [OF g, of 2 3 101 True None None "JNumber 7"]
    by simp
qed

subsection \<open>Sifting in a list of keys\<close>

lemma swap_list_nth:
  "a < length xs \<Longrightarrow> b < length xs \<Longrightarrow> i < length xs \<Longrightarrow>
   swap_list xs a b ! i = (if i = b then xs ! a else if i = a then xs ! b else xs ! i)"
  by (simp add: swap_list_def nth_list_update)

lemma swap_list_length [simp]: "length (swap_list xs a b) = length xs"
  by (simp add: swap_list_def)

lemma up_step:
  assumes u: "up_list ks k" and k: "1 < k" "k < length ks" and gt: "ks ! k < ks ! (k div 2)"
  shows "up_list (swap_list ks k (k div 2)) (k div 2)"
proof -
  let ?p = "k div 2"
  let ?ks = "swap_list ks k ?p"
  have p: "?p \<noteq> k" "k \<noteq> ?p" "?p < length ks" "1 \<le> ?p" using k by auto
  have nth: "\<And>i. i < length ks \<Longrightarrow> ?ks ! i = (if i = ?p then ks ! k else if i = k then ks ! ?p else ks ! i)"
    using k p by (simp add: swap_list_nth)
  have edge: "\<And>i. 2 \<le> i \<Longrightarrow> i < length ks \<Longrightarrow> i \<noteq> k \<Longrightarrow> ks ! (i div 2) \<le> ks ! i"
    using u by (simp add: up_list_def)
  have gr: "\<And>i. 2 \<le> k \<Longrightarrow> i < length ks \<Longrightarrow> i div 2 = k \<Longrightarrow> ks ! ?p \<le> ks ! i"
    using u by (simp add: up_list_def grand_def)
  have A: "?ks ! (i div 2) \<le> ?ks ! i" if i: "2 \<le> i" "i < length ks" "i \<noteq> ?p" for i
  proof -
    have i2: "i div 2 < length ks" using i by auto
    consider "i = k" | "i \<noteq> k" "i div 2 = k" | "i \<noteq> k" "i div 2 = ?p" | "i \<noteq> k" "i div 2 \<noteq> k" "i div 2 \<noteq> ?p"
      by blast
    then show ?thesis
    proof cases
      case 1 then show ?thesis using gt k p by (simp add: nth)
    next
      case 2 then show ?thesis using gr[of i] i k p i2 by (simp add: nth)
    next
      case 3 then show ?thesis using edge[of i] gt i k p i2 by (simp add: nth)
    next
      case 4 then show ?thesis using edge[of i] i k p i2 by (simp add: nth)
    qed
  qed
  have B: "?ks ! (?p div 2) \<le> ?ks ! i" if i: "2 \<le> ?p" "i < length ks" "i div 2 = ?p" for i
  proof -
    have pp: "?p div 2 \<noteq> ?p" "?p div 2 \<noteq> k" "?p div 2 < length ks" using i p k by auto
    have e1: "ks ! (?p div 2) \<le> ks ! ?p" using edge[of ?p] i p by simp
    have "i \<noteq> ?p" using i by auto
    show ?thesis
    proof (cases "i = k")
      case True then show ?thesis using e1 pp p k by (simp add: nth)
    next
      case False
      have "2 \<le> i" using i by auto
      then have "ks ! ?p \<le> ks ! i" using edge[of i] False i by simp
      then show ?thesis using e1 pp p k False \<open>i \<noteq> ?p\<close> i by (simp add: nth)
    qed
  qed
  show ?thesis unfolding up_list_def grand_def using A B by simp
qed

lemma up_done:
  "up_list ks k \<Longrightarrow> \<not> (1 < k \<and> ks ! k < ks ! (k div 2)) \<Longrightarrow> heap_list ks"
  unfolding up_list_def heap_list_def
  by (metis linorder_not_less Suc_1 Suc_le_eq less_Suc_eq_le)

lemma down_step:
  assumes d: "down_list ks k" and k: "1 \<le> k" and j: "least_child ks k j"
    and gt: "ks ! j < ks ! k"
  shows "down_list (swap_list ks k j) j"
proof -
  let ?ks = "swap_list ks k j"
  have jl: "j < length ks" and jk: "j div 2 = k"
    and least: "\<And>c. c < length ks \<Longrightarrow> c div 2 = k \<Longrightarrow> ks ! j \<le> ks ! c"
    using j by (auto simp: least_child_def)
  have kj: "k < j" "k \<noteq> j" "j \<noteq> k" "k < length ks" "2 \<le> j" using jk jl k by auto
  have nth: "\<And>i. i < length ks \<Longrightarrow> ?ks ! i = (if i = j then ks ! k else if i = k then ks ! j else ks ! i)"
    using kj jl by (simp add: swap_list_nth)
  have edge: "\<And>i. 2 \<le> i \<Longrightarrow> i < length ks \<Longrightarrow> i div 2 \<noteq> k \<Longrightarrow> ks ! (i div 2) \<le> ks ! i"
    using d by (simp add: down_list_def)
  have gr: "\<And>i. 2 \<le> k \<Longrightarrow> i < length ks \<Longrightarrow> i div 2 = k \<Longrightarrow> ks ! (k div 2) \<le> ks ! i"
    using d by (simp add: down_list_def grand_def)
  have A: "?ks ! (i div 2) \<le> ?ks ! i" if i: "2 \<le> i" "i < length ks" "i div 2 \<noteq> j" for i
  proof -
    have i2: "i div 2 < length ks" "i div 2 \<noteq> i" using i by auto
    consider "i = j" | "i \<noteq> j" "i div 2 = k" | "i = k" | "i \<noteq> j" "i \<noteq> k" "i div 2 \<noteq> k"
      by blast
    then show ?thesis
    proof cases
      case 1 then show ?thesis using gt kj jk jl by (simp add: nth)
    next
      case 2
      then have "i \<noteq> k" using i by auto
      then show ?thesis using 2 least[of i] i kj i2 by (simp add: nth)
    next
      case 3
      then have "2 \<le> k" "k div 2 \<noteq> k" "k div 2 \<noteq> j" "k div 2 < length ks" using i kj by auto
      then show ?thesis using 3 gr[of j] jl jk kj by (simp add: nth)
    next
      case 4 then show ?thesis using edge[of i] i i2 by (simp add: nth)
    qed
  qed
  have B: "?ks ! (j div 2) \<le> ?ks ! i" if i: "i < length ks" "i div 2 = j" for i
  proof -
    have "i \<noteq> j" "i \<noteq> k" "2 \<le> i" "i div 2 \<noteq> k" using i kj by auto
    then show ?thesis using edge[of i] i kj jk by (simp add: nth)
  qed
  show ?thesis unfolding down_list_def grand_def using A B by simp
qed

lemma down_done_leaf:
  assumes d: "down_list ks k" and k: "1 \<le> k" and leaf: "length ks \<le> 2 * k"
  shows "heap_list ks"
  unfolding heap_list_def
proof (intro allI impI)
  fix i assume i: "2 \<le> i \<and> i < length ks"
  then have "i div 2 \<noteq> k" using leaf by auto
  then show "ks ! (i div 2) \<le> ks ! i" using d i by (simp add: down_list_def)
qed

lemma down_done_least:
  assumes d: "down_list ks k" and j: "least_child ks k j" and le: "ks ! k \<le> ks ! j"
  shows "heap_list ks"
  unfolding heap_list_def
proof (intro allI impI)
  fix i assume i: "2 \<le> i \<and> i < length ks"
  show "ks ! (i div 2) \<le> ks ! i"
  proof (cases "i div 2 = k")
    case True
    then have "ks ! j \<le> ks ! i" using j i by (simp add: least_child_def)
    then show ?thesis using le True by simp
  next
    case False
    then show ?thesis using d i by (simp add: down_list_def)
  qed
qed

lemma touch_of_heap:
  assumes h: "heap_list ks" and k: "k < length ks"
  shows "touch_list (ks[k := v]) k"
proof -
  have edge: "\<And>i. 2 \<le> i \<Longrightarrow> i < length ks \<Longrightarrow> ks ! (i div 2) \<le> ks ! i"
    using h by (simp add: heap_list_def)
  have A: "ks[k := v] ! (i div 2) \<le> ks[k := v] ! i"
    if "2 \<le> i" "i < length ks" "i \<noteq> k" "i div 2 \<noteq> k" for i
    using that edge[of i] by simp
  have B: "ks[k := v] ! (k div 2) \<le> ks[k := v] ! i"
    if i: "2 \<le> k" "i < length ks" "i div 2 = k" for i
  proof -
    have "i \<noteq> k" "k div 2 \<noteq> k" "2 \<le> i" using i by auto
    moreover have "ks ! (k div 2) \<le> ks ! k" using edge[of k] i k by simp
    moreover have "ks ! k \<le> ks ! i" using edge[of i] i \<open>2 \<le> i\<close> by simp
    ultimately show ?thesis by simp
  qed
  show ?thesis unfolding touch_list_def grand_def length_list_update using A B by blast
qed

lemma touch_up:
  assumes t: "touch_list ks k" and k: "1 < k" and gt: "ks ! k < ks ! (k div 2)"
  shows "up_list ks k"
  unfolding up_list_def
proof (intro conjI allI impI)
  show "grand ks k" using t by (simp add: touch_list_def)
next
  fix i assume i: "2 \<le> i \<and> i < length ks \<and> i \<noteq> k"
  show "ks ! (i div 2) \<le> ks ! i"
  proof (cases "i div 2 = k")
    case True
    then have "ks ! (k div 2) \<le> ks ! i" using t i k by (simp add: touch_list_def grand_def)
    then show ?thesis using gt True by simp
  next
    case False
    then show ?thesis using t i by (simp add: touch_list_def)
  qed
qed

lemma touch_down:
  assumes t: "touch_list ks k" and le: "\<not> (1 < k \<and> ks ! k < ks ! (k div 2))"
  shows "down_list ks k"
  unfolding down_list_def
proof (intro conjI allI impI)
  show "grand ks k" using t by (simp add: touch_list_def)
next
  fix i assume i: "2 \<le> i \<and> i < length ks \<and> i div 2 \<noteq> k"
  show "ks ! (i div 2) \<le> ks ! i"
  proof (cases "i = k")
    case True
    then show ?thesis using le i by auto
  next
    case False
    then show ?thesis using t i by (simp add: touch_list_def)
  qed
qed

lemma up_append:
  assumes h: "heap_list ks" and ne: "ks \<noteq> []"
  shows "up_list (ks @ [v]) (length ks)"
  unfolding up_list_def grand_def
proof (intro conjI allI impI)
  fix i assume i: "2 \<le> i \<and> i < length (ks @ [v]) \<and> i \<noteq> length ks"
  then have "i < length ks" "i div 2 < length ks" by auto
  then show "(ks @ [v]) ! (i div 2) \<le> (ks @ [v]) ! i"
    using h i by (simp add: nth_append heap_list_def)
next
  fix i assume i: "2 \<le> length ks \<and> i < length (ks @ [v]) \<and> i div 2 = length ks"
  then have False by auto
  then show "(ks @ [v]) ! (length ks div 2) \<le> (ks @ [v]) ! i" ..
qed

lemma heap_list_butlast:
  assumes h: "heap_list ks"
  shows "heap_list (butlast ks)"
  unfolding heap_list_def
proof (intro allI impI)
  fix i assume i: "2 \<le> i \<and> i < length (butlast ks)"
  then have "i < length ks" "i div 2 < length (butlast ks)" by auto
  then show "butlast ks ! (i div 2) \<le> butlast ks ! i"
    using h i by (simp add: nth_butlast heap_list_def)
qed

lemma heap_list_root:
  assumes h: "heap_list ks"
  shows "1 \<le> i \<Longrightarrow> i < length ks \<Longrightarrow> ks ! 1 \<le> ks ! i"
proof (induction i rule: less_induct)
  case (less i)
  show ?case
  proof (cases "i = 1")
    case True then show ?thesis by simp
  next
    case False
    with less.prems have i: "2 \<le> i" "i div 2 < i" "1 \<le> i div 2" "i div 2 < length ks" by auto
    have "ks ! 1 \<le> ks ! (i div 2)" using less.IH[of "i div 2"] i by simp
    moreover have "ks ! (i div 2) \<le> ks ! i" using h i less.prems by (simp add: heap_list_def)
    ultimately show ?thesis by simp
  qed
qed

subsection \<open>Sifting in the state\<close>

lemma length_keys [simp]: "length (keys s) = length (L s)"
  by (simp add: keys_def)

lemma pos_ok_nth_eq:
  "pos_ok s \<Longrightarrow> a < length (L s) \<Longrightarrow> b < length (L s) \<Longrightarrow> L s ! a = L s ! b \<Longrightarrow> a = b"
  by (metis pos_ok_def)

lemma pos_ok_distinct: "pos_ok s \<Longrightarrow> distinct (L s)"
  by (auto simp: distinct_conv_nth dest: pos_ok_nth_eq)

lemma key_frame:
  "node_value s' = node_value s \<Longrightarrow> client_object s' = client_object s \<Longrightarrow> key s' = key s"
  by (rule ext) (simp add: key_def)

lemma keys_swap:
  "k < length (L s) \<Longrightarrow> j < length (L s) \<Longrightarrow> keys (Heap_swap k j s) = swap_list (keys s) k j"
  by (simp add: keys_def key_frame[of "Heap_swap k j s" s])
     (simp add: Heap_swap_def Let_def swap_list_def map_update)

lemma L_swap: "L (Heap_swap k j s) = swap_list (L s) k j"
  by (simp add: Heap_swap_def Let_def swap_list_def)

lemma set_swap_list:
  "k < length xs \<Longrightarrow> j < length xs \<Longrightarrow> set (swap_list xs k j) = set xs"
  by (simp add: swap_list_def set_swap)

lemma pos_ok_swap:
  assumes p: "pos_ok s" and k: "k < length (L s)" and j: "j < length (L s)"
  shows "pos_ok (Heap_swap k j s)"
  unfolding pos_ok_def
proof (intro conjI allI impI)
  show "L (Heap_swap k j s) \<noteq> []" using p by (simp add: pos_ok_def L_swap swap_list_def)
next
  fix i assume "i < length (L (Heap_swap k j s))"
  then have i: "i < length (L s)" by simp
  have pos: "\<And>a. a < length (L s) \<Longrightarrow> node_position s (L s ! a) = a"
    using p by (simp add: pos_ok_def)
  have ne: "\<And>a b. a < length (L s) \<Longrightarrow> b < length (L s) \<Longrightarrow> a \<noteq> b \<Longrightarrow> L s ! a \<noteq> L s ! b"
    using pos_ok_nth_eq[OF p] by blast
  show "node_position (Heap_swap k j s) (L (Heap_swap k j s) ! i) = i"
  proof (cases "i = j")
    case True
    then show ?thesis using k j by (simp add: Heap_swap_def Let_def)
  next
    case nj: False
    show ?thesis
    proof (cases "i = k")
      case True
      then show ?thesis using k j nj ne[of j k] by (simp add: Heap_swap_def Let_def)
    next
      case False
      then show ?thesis using k j i nj ne[of i j] ne[of i k] pos[of i]
        by (simp add: Heap_swap_def Let_def)
    qed
  qed
qed

lemma isGreaterThanParent_keys:
  "k < length (L s) \<Longrightarrow>
   isGreaterThanParent k s = (1 < k \<and> keys s ! k < keys s ! (k div 2))"
  by (auto simp: isGreaterThanParent_def compare_def keys_def key_def)

lemma fixup_correct:
  "pos_ok s \<Longrightarrow> k < length (L s) \<Longrightarrow> up_list (keys s) k \<Longrightarrow>
   heap_list (keys (fixup k s)) \<and> pos_ok (fixup k s)
   \<and> set (L (fixup k s)) = set (L s) \<and> L (fixup k s) ! 0 = L s ! 0"
proof (induction k s rule: fixup.induct)
  case (1 k s)
  show ?case
  proof (cases "isGreaterThanParent k s")
    case True
    then have gt: "1 < k" "keys s ! k < keys s ! (k div 2)"
      using "1.prems" by (simp_all add: isGreaterThanParent_keys)
    let ?s = "Heap_swap k (k div 2) s"
    have p: "k div 2 < length (L s)" "k div 2 \<noteq> 0" using "1.prems" gt by auto
    have "pos_ok ?s" using "1.prems" p by (simp add: pos_ok_swap)
    moreover have "k div 2 < length (L ?s)" using p by simp
    moreover have "up_list (keys ?s) (k div 2)"
      using up_step[of "keys s" k] "1.prems" gt p by (simp add: keys_swap)
    ultimately have IH: "heap_list (keys (fixup (k div 2) ?s)) \<and> pos_ok (fixup (k div 2) ?s)
      \<and> set (L (fixup (k div 2) ?s)) = set (L ?s) \<and> L (fixup (k div 2) ?s) ! 0 = L ?s ! 0"
      using "1.IH"[OF True] by blast
    have "set (L ?s) = set (L s)" using "1.prems" p by (simp add: L_swap set_swap_list)
    moreover have "L ?s ! 0 = L s ! 0" using gt p by (simp add: L_swap swap_list_def)
    moreover have "fixup k s = fixup (k div 2) ?s" using True by (subst fixup.simps) simp
    ultimately show ?thesis using IH by simp
  next
    case False
    then have "fixup k s = s" by (subst fixup.simps) simp
    moreover have "heap_list (keys s)"
      using up_done[of "keys s" k] False "1.prems" by (simp add: isGreaterThanParent_keys)
    ultimately show ?thesis using "1.prems" by simp
  qed
qed

lemma smaller_child_least:
  assumes k: "1 \<le> k" and c: "2 * k < length (L s)"
  shows "least_child (keys s) k (smaller_child k s)"
proof -
  let ?j = "smaller_child k s"
  have nth: "\<And>i. i < length (L s) \<Longrightarrow> keys s ! i = key s (L s ! i)"
    by (simp add: keys_def)
  have cmp: "compare s (node_value s (L s ! (2 * k))) (node_value s (L s ! (2 * k + 1))) > 0
      \<longleftrightarrow> key s (L s ! (2 * k + 1)) < key s (L s ! (2 * k))"
    by (simp add: compare_def key_def)
  have j: "?j = (if 2 * k + 1 < length (L s) \<and> key s (L s ! (2 * k + 1)) < key s (L s ! (2 * k))
                 then 2 * k + 1 else 2 * k)"
    using cmp by (auto simp: smaller_child_def Let_def Heap_count_def)
  have j1: "?j < length (L s)" "?j div 2 = k" using j c by (auto split: if_splits)
  have least: "keys s ! ?j \<le> keys s ! i" if i: "i < length (L s)" "i div 2 = k" for i
  proof -
    consider "i = 2 * k" | "i = 2 * k + 1" using i by linarith
    then show ?thesis
    proof cases
      case 1
      then show ?thesis using i c j by (auto simp: nth)
    next
      case 2
      then show ?thesis using i c j by (auto simp: nth)
    qed
  qed
  show ?thesis unfolding least_child_def using j1 least by simp
qed

lemma fixdown_correct:
  "pos_ok s \<Longrightarrow> 1 \<le> k \<Longrightarrow> k < length (L s) \<Longrightarrow> down_list (keys s) k \<Longrightarrow>
   heap_list (keys (fixdown k s)) \<and> pos_ok (fixdown k s)
   \<and> set (L (fixdown k s)) = set (L s) \<and> L (fixdown k s) ! 0 = L s ! 0"
proof (induction k s rule: fixdown.induct)
  case (1 k s)
  show ?case
  proof (cases "int (2 * k) \<le> Heap_count s")
    case inner: True
    then have c: "2 * k < length (L s)" by (simp add: Heap_count_def)
    let ?j = "smaller_child k s"
    have lc: "least_child (keys s) k ?j" using smaller_child_least "1.prems" c by simp
    then have j: "?j < length (L s)" "?j div 2 = k" by (simp_all add: least_child_def)
    then have j1: "1 \<le> ?j" "?j \<noteq> 0" "k \<noteq> 0" using "1.prems" by auto
    have cmp: "(compare s (node_value s (L s ! k)) (node_value s (L s ! ?j)) \<le> 0)
       = (keys s ! k \<le> keys s ! ?j)"
      using j "1.prems" by (simp add: compare_def keys_def key_def)
    show ?thesis
    proof (cases "keys s ! k \<le> keys s ! ?j")
      case True
      then have "fixdown k s = s" using inner cmp by (subst fixdown.simps) (simp add: Let_def)
      moreover have "heap_list (keys s)"
        using down_done_least[OF _ lc True] "1.prems" by simp
      ultimately show ?thesis using "1.prems" by simp
    next
      case False
      let ?s = "Heap_swap k ?j s"
      have eq: "fixdown k s = fixdown ?j ?s"
        using inner cmp False by (subst fixdown.simps) (simp add: Let_def)
      have "pos_ok ?s" using "1.prems" j by (simp add: pos_ok_swap)
      moreover have "?j < length (L ?s)" using j by simp
      moreover have "down_list (keys ?s) ?j"
        using down_step[OF _ _ lc] "1.prems" False j by (simp add: keys_swap)
      ultimately have IH: "heap_list (keys (fixdown ?j ?s)) \<and> pos_ok (fixdown ?j ?s)
        \<and> set (L (fixdown ?j ?s)) = set (L ?s) \<and> L (fixdown ?j ?s) ! 0 = L ?s ! 0"
        using "1.IH"[OF inner refl _ _ j1(1)] cmp False by blast
      have "set (L ?s) = set (L s)" using "1.prems" j by (simp add: L_swap set_swap_list)
      moreover have "L ?s ! 0 = L s ! 0" using j1 by (simp add: L_swap swap_list_def)
      ultimately show ?thesis using IH eq by simp
    qed
  next
    case False
    then have "fixdown k s = s" by (subst fixdown.simps) simp
    moreover have "length (keys s) \<le> 2 * k" using False by (simp add: Heap_count_def)
    then have "heap_list (keys s)" using down_done_leaf[of "keys s" k] "1.prems" by simp
    ultimately show ?thesis using "1.prems" by simp
  qed
qed

lemma Heap_update_correct:
  assumes p: "pos_ok s" and k: "1 \<le> node_position s n" "node_position s n < length (L s)"
    and t: "touch_list (keys s) (node_position s n)"
  shows "heap_list (keys (Heap_update n s)) \<and> pos_ok (Heap_update n s)
   \<and> set (L (Heap_update n s)) = set (L s) \<and> L (Heap_update n s) ! 0 = L s ! 0"
proof (cases "isGreaterThanParent (node_position s n) s")
  case True
  then have "up_list (keys s) (node_position s n)"
    using touch_up[OF t] k by (simp add: isGreaterThanParent_keys)
  then show ?thesis using True fixup_correct[OF p k(2)] by (simp add: Heap_update_def Let_def)
next
  case False
  then have "down_list (keys s) (node_position s n)"
    using touch_down[OF t] k by (simp add: isGreaterThanParent_keys)
  then show ?thesis using False fixdown_correct[OF p k] by (simp add: Heap_update_def Let_def)
qed

subsection \<open>The invariant is kept\<close>

lemma set_tl_conv: "distinct xs \<Longrightarrow> xs \<noteq> [] \<Longrightarrow> set (tl xs) = set xs - {xs ! 0}"
  by (cases xs) auto

lemma key_update_other [simp]:
  "key (s\<lparr>string_array := sa\<rparr>) = key s"
  "key (s\<lparr>client_array := ca\<rparr>) = key s"
  "key (s\<lparr>nxt := a\<rparr>) = key s"
  "key (s\<lparr>L := l\<rparr>) = key s"
  "key (s\<lparr>node_position := np\<rparr>) = key s"
  "key (s\<lparr>clientNodeMap := m\<rparr>) = key s"
  by (rule ext, simp add: key_def)+

lemma invar_init: "invar init"
  by (simp add: invar_def init_def pos_ok_def heap_list_def keys_def alloc_ok_def map_ok_def
      comparer_min_def)

lemma invar_new_string_array:
  "invar s \<Longrightarrow> invar (snd (new_string_array xs s))"
  by (auto simp: invar_def new_string_array_def pos_ok_def keys_def key_def alloc_ok_def
      map_ok_def less_Suc_eq)

text \<open>A tracked node sits in the array at its position, which is not slot 0.\<close>

lemma tracked_position:
  assumes p: "pos_ok s" and n: "n \<in> set (tl (L s))"
  shows "1 \<le> node_position s n \<and> node_position s n < length (L s)
         \<and> L s ! node_position s n = n"
proof -
  from n obtain i where i: "i < length (tl (L s))" "tl (L s) ! i = n"
    by (auto simp: in_set_conv_nth)
  then have "Suc i < length (L s)" "L s ! Suc i = n"
    by (simp_all add: nth_tl)
  moreover from this have "node_position s n = Suc i"
    using p by (auto simp: pos_ok_def)
  ultimately show ?thesis by simp
qed

lemma keys_object_update:
  assumes p: "pos_ok s" and inj: "inj_on (node_value s) (set (L s))"
    and n: "n \<in> set (tl (L s))"
  shows "keys (s\<lparr>client_object := (client_object s)(node_value s n := c)\<rparr>)
           = (keys s)[node_position s n := referenceSequenceNumber c]"
proof (rule nth_equalityI)
  show "length (keys (s\<lparr>client_object := (client_object s)(node_value s n := c)\<rparr>))
          = length ((keys s)[node_position s n := referenceSequenceNumber c])"
    by (simp add: keys_def)
next
  fix i assume "i < length (keys (s\<lparr>client_object := (client_object s)(node_value s n := c)\<rparr>))"
  then have i: "i < length (L s)" by (simp add: keys_def)
  have tp: "node_position s n < length (L s)" "L s ! node_position s n = n"
    using tracked_position[OF p n] by simp_all
  have "node_value s (L s ! i) = node_value s n \<longleftrightarrow> i = node_position s n"
  proof
    assume "node_value s (L s ! i) = node_value s n"
    then have "L s ! i = n" using inj i tp by (metis inj_onD nth_mem)
    then show "i = node_position s n" using p i by (auto simp: pos_ok_def)
  next
    assume "i = node_position s n" then show "node_value s (L s ! i) = node_value s n"
      using tp by simp
  qed
  then show "keys (s\<lparr>client_object := (client_object s)(node_value s n := c)\<rparr>) ! i
          = (keys s)[node_position s n := referenceSequenceNumber c] ! i"
    using i by (auto simp: keys_def key_def nth_list_update)
qed

lemma invar_update:
  assumes inv: "invar s" and n: "n \<in> set (tl (L s))"
    and cid: "clientId c = clientId (client_object s (node_value s n))"
    and sc: "scopes c = scopes (client_object s (node_value s n))"
  shows "invar (Heap_update n (s\<lparr>client_object := (client_object s)(node_value s n := c)\<rparr>))"
proof -
  let ?s1 = "s\<lparr>client_object := (client_object s)(node_value s n := c)\<rparr>"
  let ?s2 = "Heap_update n ?s1"
  have p: "pos_ok s" and h: "heap_list (keys s)" and inj: "inj_on (node_value s) (set (L s))"
    and al: "alloc_ok s" and mp: "map_ok s"
    using inv by (simp_all add: invar_def)
  have tp: "1 \<le> node_position s n" "node_position s n < length (L s)"
    using tracked_position[OF p n] by simp_all
  have p1: "pos_ok ?s1" using p by (simp add: pos_ok_def)
  have "touch_list (keys ?s1) (node_position ?s1 n)"
    using touch_of_heap[OF h, of "node_position s n"] tp
    by (simp add: keys_object_update[OF p inj n])
  then have fx: "heap_list (keys ?s2)" "pos_ok ?s2" "set (L ?s2) = set (L s)"
      "L ?s2 ! 0 = L s ! 0"
    using Heap_update_correct[OF p1, of n] tp by simp_all
  have tl: "set (tl (L ?s2)) = set (tl (L s))"
    using fx p pos_ok_distinct[OF p] pos_ok_distinct[OF fx(2)]
    by (simp add: set_tl_conv pos_ok_def)
  have obj: "\<And>a. clientId (client_object ?s2 a) = clientId (client_object s a)
      \<and> scopes (client_object ?s2 a) = scopes (client_object s a)"
    using cid sc by simp
  have "inj_on (node_value ?s2) (set (L ?s2))" using inj fx by simp
  moreover have "alloc_ok ?s2" using al fx obj unfolding alloc_ok_def by simp
  moreover have "map_ok ?s2" using mp tl obj unfolding map_ok_def by simp
  ultimately show ?thesis using fx by (simp add: invar_def)
qed

lemma Map_set_fresh: "map_of m k = None \<Longrightarrow> Map_set k v m = m @ [(k, v)]"
  by (induction m) (auto split: if_splits)

lemma map_of_None_fst: "map_of m k = None \<Longrightarrow> k \<notin> fst ` set m"
  by (simp add: map_of_eq_None_iff)

lemma invar_insert:
  assumes inv: "invar s" and none: "map_of (clientNodeMap s) cid = None"
    and sc: "scopes c < nxt s" and cid: "clientId c = Some cid"
  shows "invar ((snd (Heap_add (nxt s) (snd (new_client_object c s))))
           \<lparr>clientNodeMap := Map_set cid (Suc (nxt s)) (clientNodeMap s)\<rparr>)"
proof -
  let ?x = "nxt s" and ?n = "Suc (nxt s)"
  define sB where "sB = s\<lparr>client_object := (client_object s)(?x := c),
               node_value := (node_value s)(?n := ?x),
               node_position := (node_position s)(?n := length (L s)),
               nxt := Suc (Suc (nxt s)), L := L s @ [?n]\<rparr>"
  define s2 where "s2 = fixup (length (L s)) sB"
  have sB: "L sB = L s @ [?n]" "node_value sB = (node_value s)(?n := ?x)"
    "node_position sB = (node_position s)(?n := length (L s))"
    "client_object sB = (client_object s)(?x := c)" "nxt sB = Suc (Suc (nxt s))"
    "clientNodeMap sB = clientNodeMap s"
    by (simp_all add: sB_def)
  have p: "pos_ok s" and h: "heap_list (keys s)" and inj: "inj_on (node_value s) (set (L s))"
    and al: "alloc_ok s" and mp: "map_ok s"
    using inv by (simp_all add: invar_def)
  have old: "\<And>n. n \<in> set (L s) \<Longrightarrow> n < ?x \<and> node_value s n < ?x
      \<and> scopes (client_object s (node_value s n)) < ?x"
    using al by (simp add: alloc_ok_def)
  have add: "snd (Heap_add ?x (snd (new_client_object c s))) = s2"
    by (simp add: Heap_add_def new_client_object_def Let_def s2_def sB_def)
  have ne: "L s \<noteq> []" using p by (simp add: pos_ok_def)
  have keyB: "key sB n = key s n" if "n \<in> set (L s)" for n
  proof -
    from old[OF that] have "n \<noteq> ?n" "node_value s n \<noteq> ?x" by auto
    then show ?thesis by (simp add: key_def sB)
  qed
  have pB: "pos_ok sB"
    unfolding pos_ok_def
  proof (intro conjI allI impI)
    show "L sB \<noteq> []" by (simp add: sB)
  next
    fix k assume "k < length (L sB)"
    then consider "k < length (L s)" | "k = length (L s)" by (fastforce simp: sB)
    then show "node_position sB (L sB ! k) = k"
    proof cases
      case 1
      then have "L s ! k \<noteq> ?n" using old[of "L s ! k"] by auto
      then show ?thesis using 1 p by (simp add: nth_append pos_ok_def sB)
    next
      case 2 then show ?thesis by (simp add: sB)
    qed
  qed
  have "key sB ?n = referenceSequenceNumber c" by (simp add: key_def sB)
  then have kB: "keys sB = keys s @ [referenceSequenceNumber c]"
    using keyB by (simp add: keys_def sB)
  have "up_list (keys sB) (length (L s))"
    unfolding kB using up_append[OF h, of "referenceSequenceNumber c"] ne
    by (simp add: keys_def)
  then have fx: "heap_list (keys s2)" "pos_ok s2" "set (L s2) = insert ?n (set (L s))"
      "L s2 ! 0 = L s ! 0"
    using fixup_correct[OF pB, of "length (L s)"] ne by (simp_all add: nth_append sB s2_def)
  have fr: "node_value s2 = (node_value s)(?n := ?x)"
      "client_object s2 = (client_object s)(?x := c)" "nxt s2 = Suc (Suc (nxt s))"
    by (simp_all add: s2_def sB)
  have n0: "?n \<noteq> L s ! 0" using old[of "L s ! 0"] ne by auto
  have tl: "set (tl (L s2)) = insert ?n (set (tl (L s)))"
    using fx p n0 pos_ok_distinct[OF p] pos_ok_distinct[OF fx(2)]
    by (auto simp: set_tl_conv pos_ok_def)
  define s3 where "s3 = s2\<lparr>clientNodeMap := Map_set cid ?n (clientNodeMap s)\<rparr>"
  have s3: "L s3 = L s2" "node_value s3 = node_value s2" "node_position s3 = node_position s2"
    "client_object s3 = client_object s2" "nxt s3 = nxt s2" "keys s3 = keys s2"
    "clientNodeMap s3 = clientNodeMap s @ [(cid, ?n)]"
    by (simp_all add: s3_def keys_def Map_set_fresh[OF none])
  have "pos_ok s3" using fx(2) by (simp add: pos_ok_def s3)
  moreover have "heap_list (keys s3)" using fx(1) by (simp add: s3)
  moreover have "inj_on (node_value s3) (set (L s3))"
  proof -
    have "inj_on (node_value s) (set (L s))" by (rule inj)
    moreover have "?n \<notin> set (L s)" by (auto dest: old)
    moreover have "?x \<notin> node_value s ` set (L s)" by (auto dest: old)
    ultimately have "inj_on ((node_value s)(?n := ?x)) (insert ?n (set (L s)))"
      by (simp add: inj_on_fun_updI) blast
    then show ?thesis using fx fr by (simp add: s3)
  qed
  moreover have "alloc_ok s3"
    unfolding alloc_ok_def
  proof
    fix n assume "n \<in> set (L s3)"
    then consider "n = ?n" | "n \<in> set (L s)" "n \<noteq> ?n" using fx by (auto simp: s3)
    then show "n < nxt s3 \<and> node_value s3 n < nxt s3
        \<and> scopes (client_object s3 (node_value s3 n)) < nxt s3"
    proof cases
      case 1 then show ?thesis using sc by (simp add: s3 fr)
    next
      case 2
      then show ?thesis using old[of n] by (auto simp: less_Suc_eq s3 fr)
    qed
  qed
  moreover have "map_ok s3"
  proof -
    have m: "distinct (map fst (clientNodeMap s))" "distinct (map snd (clientNodeMap s))"
        "set (map snd (clientNodeMap s)) = set (tl (L s))"
        "\<And>e. e \<in> set (clientNodeMap s) \<Longrightarrow>
           clientId (client_object s (node_value s (snd e))) = Some (fst e)"
      using mp by (simp_all add: map_ok_def)
    have sub: "set (tl (L s)) \<subseteq> set (L s)" by (simp add: list.set_sel(2) ne subsetI)
    have "?n \<notin> set (L s)" by (auto dest: old)
    then have nn: "?n \<notin> set (map snd (clientNodeMap s))" using m(3) sub by auto
    have ee: "clientId (client_object s3 (node_value s3 (snd e))) = Some (fst e)"
      if e: "e \<in> set (clientNodeMap s)" for e
    proof -
      have "snd e \<in> set (L s)" using e m(3) sub by auto
      then have "snd e \<noteq> ?n" "node_value s (snd e) \<noteq> ?x" using old[of "snd e"] by auto
      then show ?thesis using m(4)[OF e] by (simp add: s3 fr)
    qed
    have new: "clientId (client_object s3 (node_value s3 ?n)) = Some cid"
      using cid by (simp add: s3 fr)
    have k: "cid \<notin> fst ` set (clientNodeMap s)" by (rule map_of_None_fst[OF none])
    have d1: "distinct (map fst (clientNodeMap s3))" using m(1) k by (simp add: s3)
    have d2: "distinct (map snd (clientNodeMap s3))" using m(2) nn by (simp add: s3)
    have d3: "set (map snd (clientNodeMap s3)) = set (tl (L s3))"
      using m(3) tl by (simp add: s3)
    have d4: "\<forall>e \<in> set (clientNodeMap s3).
        clientId (client_object s3 (node_value s3 (snd e))) = Some (fst e)"
    proof
      fix e assume "e \<in> set (clientNodeMap s3)"
      then consider "e \<in> set (clientNodeMap s)" | "e = (cid, ?n)" by (auto simp: s3)
      then show "clientId (client_object s3 (node_value s3 (snd e))) = Some (fst e)"
      proof cases
        case 1 then show ?thesis by (rule ee)
      next
        case 2 then show ?thesis using new by simp
      qed
    qed
    show ?thesis unfolding map_ok_def using d1 d2 d3 d4 by blast
  qed
  ultimately show ?thesis using add by (simp add: invar_def s3_def)
qed

lemma butlast_swap_last:
  assumes "p < length xs - 1"
  shows "butlast (swap_list xs p (length xs - 1)) = (butlast xs)[p := last xs]"
proof (rule nth_equalityI)
  show "length (butlast (swap_list xs p (length xs - 1))) = length ((butlast xs)[p := last xs])"
    by simp
next
  fix i assume "i < length (butlast (swap_list xs p (length xs - 1)))"
  then have i: "i < length xs - 1" by simp
  have ne: "xs \<noteq> []" using assms by auto
  have "butlast (swap_list xs p (length xs - 1)) ! i = swap_list xs p (length xs - 1) ! i"
    using i by (simp add: nth_butlast)
  also have "\<dots> = (if i = p then xs ! (length xs - 1) else xs ! i)"
    using i assms by (simp add: swap_list_nth)
  also have "\<dots> = (butlast xs)[p := last xs] ! i"
    using i assms ne by (simp add: nth_list_update nth_butlast last_conv_nth)
  finally show "butlast (swap_list xs p (length xs - 1)) ! i = (butlast xs)[p := last xs] ! i" .
qed

lemma set_butlast_distinct:
  assumes "distinct xs" "xs \<noteq> []"
  shows "set (butlast xs) = set xs - {last xs}"
proof -
  have eq: "xs = butlast xs @ [last xs]" using assms(2) by simp
  then have "distinct (butlast xs @ [last xs])" using assms(1) by simp
  then have "last xs \<notin> set (butlast xs)" by simp
  moreover have "set xs = set (butlast xs) \<union> {last xs}"
    using eq by (metis set_append list.set(1) list.set(2))
  ultimately show ?thesis by auto
qed

lemma swap_list_same: "swap_list xs p p = xs"
  by (simp add: swap_list_def)

lemma Heap_remove_frame [simp]:
  "clientNodeMap (Heap_remove n s) = clientNodeMap s"
  "node_value (Heap_remove n s) = node_value s"
  "client_object (Heap_remove n s) = client_object s"
  "string_array (Heap_remove n s) = string_array s"
  "client_array (Heap_remove n s) = client_array s"
  "nxt (Heap_remove n s) = nxt s"
  by (simp_all add: Heap_remove_def Let_def)

text \<open>Removing a tracked node from the heap.\<close>

lemma Heap_remove_correct:
  assumes p: "pos_ok s" and h: "heap_list (keys s)" and n: "n \<in> set (tl (L s))"
  shows "heap_list (keys (Heap_remove n s)) \<and> pos_ok (Heap_remove n s)
    \<and> set (L (Heap_remove n s)) = set (L s) - {n} \<and> L (Heap_remove n s) ! 0 = L s ! 0"
proof -
  define q where "q = node_position s n"
  define l where "l = length (L s) - 1"
  have tp: "1 \<le> q" "q < length (L s)" "L s ! q = n"
    using tracked_position[OF p n] by (simp_all add: q_def)
  then have l: "q \<le> l" "l < length (L s)" "1 \<le> l" by (simp_all add: l_def)
  define sw where "sw = Heap_swap q l s"
  define s2 where "s2 = sw\<lparr>L := butlast (L sw)\<rparr>"
  have dist: "distinct (L s)" by (rule pos_ok_distinct[OF p])
  have psw: "pos_ok sw" using pos_ok_swap[OF p tp(2) l(2)] by (simp add: sw_def)
  have Lsw: "L sw = swap_list (L s) q l" by (simp add: sw_def L_swap)
  have ksw: "keys sw = swap_list (keys s) q l" using tp l by (simp add: sw_def keys_swap)
  have lsw: "length (L sw) = length (L s)" by (simp add: Lsw)
  have "L sw \<noteq> []" using psw by (simp add: pos_ok_def)
  then have "last (L sw) = L sw ! l" by (simp add: last_conv_nth lsw l_def)
  then have last_sw: "last (L sw) = n"
    using tp l by (simp add: Lsw swap_list_nth)
  have set_sw: "set (L sw) = set (L s)" using tp l by (simp add: Lsw set_swap_list)
  have L2: "L s2 = butlast (L sw)" by (simp add: s2_def)
  have k2: "keys s2 = butlast (keys sw)" by (simp add: s2_def keys_def map_butlast)
  have len2: "length (L s2) = l" by (simp add: L2 lsw l_def)
  have p2: "pos_ok s2"
    unfolding pos_ok_def
  proof (intro conjI allI impI)
    show "L s2 \<noteq> []" using len2 l by auto
  next
    fix k assume "k < length (L s2)"
    then have k: "k < length (L sw) - 1" by (simp add: L2)
    then have "node_position sw (L sw ! k) = k" using psw by (simp add: pos_ok_def)
    then show "node_position s2 (L s2 ! k) = k" using k by (simp add: s2_def nth_butlast)
  qed
  have set2: "set (L s2) = set (L s) - {n}"
    using set_butlast_distinct[of "L sw"] pos_ok_distinct[OF psw] psw last_sw set_sw
    by (simp add: L2 pos_ok_def)
  have hd2: "L s2 ! 0 = L s ! 0"
    using tp l by (simp add: L2 Lsw nth_butlast swap_list_def l_def)
  have rem: "Heap_remove n s = (if q \<noteq> l then Heap_update (L s2 ! q) s2 else s2)"
    by (simp add: Heap_remove_def Let_def q_def l_def s2_def sw_def)
  show ?thesis
  proof (cases "q = l")
    case True
    then have "keys s2 = butlast (keys s)" by (simp add: k2 ksw swap_list_same)
    then have "heap_list (keys s2)" using heap_list_butlast[OF h] by simp
    then show ?thesis using True rem p2 set2 hd2 by simp
  next
    case False
    then have ql: "q < l" using l by simp
    then have "q < length (keys s) - 1" by (simp add: l_def)
    then have "keys s2 = (butlast (keys s))[q := last (keys s)]"
      using butlast_swap_last[of q "keys s"] by (simp add: k2 ksw l_def)
    moreover have "q < length (butlast (keys s))" using ql by (simp add: l_def)
    ultimately have t: "touch_list (keys s2) q"
      using touch_of_heap[OF heap_list_butlast[OF h], of q "last (keys s)"] by simp
    have "node_position s2 (L s2 ! q) = q" using p2 ql len2 by (simp add: pos_ok_def)
    then have "heap_list (keys (Heap_update (L s2 ! q) s2)) \<and> pos_ok (Heap_update (L s2 ! q) s2)
       \<and> set (L (Heap_update (L s2 ! q) s2)) = set (L s2)
       \<and> L (Heap_update (L s2 ! q) s2) ! 0 = L s2 ! 0"
      using Heap_update_correct[OF p2, of "L s2 ! q"] t tp ql len2 by simp
    then show ?thesis using False rem set2 hd2 by simp
  qed
qed

lemma map_of_distinct_fst:
  "distinct (map fst m) \<Longrightarrow> e \<in> set m \<Longrightarrow> map_of m (fst e) = Some (snd e)"
  by (cases e) simp

lemma invar_remove:
  assumes inv: "invar s" and some: "map_of (clientNodeMap s) cid = Some n"
  shows "invar ((Heap_remove n s)\<lparr>clientNodeMap := Map_delete cid (clientNodeMap s)\<rparr>)"
proof -
  have p: "pos_ok s" and h: "heap_list (keys s)" and inj: "inj_on (node_value s) (set (L s))"
    and al: "alloc_ok s" and mp: "map_ok s"
    using inv by (simp_all add: invar_def)
  have m: "distinct (map fst (clientNodeMap s))" "distinct (map snd (clientNodeMap s))"
      "set (map snd (clientNodeMap s)) = set (tl (L s))"
      "\<And>e. e \<in> set (clientNodeMap s) \<Longrightarrow>
         clientId (client_object s (node_value s (snd e))) = Some (fst e)"
    using mp by (simp_all add: map_ok_def)
  have mem: "(cid, n) \<in> set (clientNodeMap s)" using some by (rule map_of_SomeD)
  then have n: "n \<in> set (tl (L s))" using m(3) by force
  define s1 where "s1 = Heap_remove n s"
  have fx: "heap_list (keys s1)" "pos_ok s1" "set (L s1) = set (L s) - {n}"
      "L s1 ! 0 = L s ! 0"
    using Heap_remove_correct[OF p h n] by (simp_all add: s1_def)
  have fr: "node_value s1 = node_value s" "client_object s1 = client_object s"
      "nxt s1 = nxt s"
    by (simp_all add: s1_def)
  define s3 where "s3 = s1\<lparr>clientNodeMap := Map_delete cid (clientNodeMap s)\<rparr>"
  have s3: "L s3 = L s1" "node_value s3 = node_value s" "node_position s3 = node_position s1"
    "client_object s3 = client_object s" "nxt s3 = nxt s" "keys s3 = keys s1"
    "clientNodeMap s3 = filter (\<lambda>e. fst e \<noteq> cid) (clientNodeMap s)"
    by (simp_all add: s3_def keys_def fr Map_delete_def)
  have tl: "set (tl (L s1)) = set (tl (L s)) - {n}"
    using fx p pos_ok_distinct[OF p] pos_ok_distinct[OF fx(2)]
    by (auto simp: set_tl_conv pos_ok_def)
  have "pos_ok s3" using fx(2) by (simp add: pos_ok_def s3)
  moreover have "heap_list (keys s3)" using fx(1) by (simp add: s3)
  moreover have "inj_on (node_value s3) (set (L s3))"
    using inj fx(3) by (simp add: s3 inj_on_diff)
  moreover have "alloc_ok s3" using al fx(3) by (simp add: alloc_ok_def s3)
  moreover have "map_ok s3"
  proof -
    have d1: "distinct (map fst (clientNodeMap s3))"
      using m(1) by (simp add: s3 distinct_map_filter)
    have d2: "distinct (map snd (clientNodeMap s3))"
      using m(2) by (simp add: s3 distinct_map_filter)
    have "snd ` {e \<in> set (clientNodeMap s). fst e \<noteq> cid} = snd ` set (clientNodeMap s) - {n}"
    proof (intro equalityI subsetI)
      fix y assume "y \<in> snd ` {e \<in> set (clientNodeMap s). fst e \<noteq> cid}"
      then obtain e where e: "e \<in> set (clientNodeMap s)" "fst e \<noteq> cid" "y = snd e" by auto
      have "snd e \<noteq> n"
      proof
        assume "snd e = n"
        then have "snd e = snd (cid, n)" by simp
        then have "e = (cid, n)"
          using m(2) e(1) mem by (metis distinct_map inj_onD)
        then show False using e(2) by simp
      qed
      then show "y \<in> snd ` set (clientNodeMap s) - {n}" using e by auto
    next
      fix y assume "y \<in> snd ` set (clientNodeMap s) - {n}"
      then obtain e where e: "e \<in> set (clientNodeMap s)" "y = snd e" "snd e \<noteq> n" by auto
      have "fst e \<noteq> cid"
      proof
        assume "fst e = cid"
        then have "map_of (clientNodeMap s) cid = Some (snd e)"
          using map_of_distinct_fst[OF m(1) e(1)] by simp
        then show False using some e(3) by simp
      qed
      then show "y \<in> snd ` {e \<in> set (clientNodeMap s). fst e \<noteq> cid}" using e by auto
    qed
    then have d3: "set (map snd (clientNodeMap s3)) = set (tl (L s3))"
      using m(3) tl by (simp add: s3)
    have d4: "\<forall>e \<in> set (clientNodeMap s3).
        clientId (client_object s3 (node_value s3 (snd e))) = Some (fst e)"
      using m(4) by (simp add: s3)
    show ?thesis unfolding map_ok_def using d1 d2 d3 d4 by blast
  qed
  ultimately have "invar s3" by (simp add: invar_def)
  then show ?thesis by (simp only: s3_def s1_def)
qed

lemma entry_state_frame [simp]:
  "clientNodeMap (entry_state sc s) = clientNodeMap s"
  "L (entry_state sc s) = L s"
  "node_value (entry_state sc s) = node_value s"
  "node_position (entry_state sc s) = node_position s"
  "client_object (entry_state sc s) = client_object s"
  "client_array (entry_state sc s) = client_array s"
  by (simp_all add: entry_state_def new_string_array_def split: option.splits)

lemma upsertClient_tracked:
  assumes "map_of (clientNodeMap s) cid = Some client"
  shows "upsertClient cid csn rsn ts ce sc nk md s =
    (False, Heap_update client
       ((entry_state sc s)\<lparr>client_object := (client_object (entry_state sc s))
          (node_value (entry_state sc s) client :=
             updated_client csn rsn ts nk md
               (client_object (entry_state sc s) (node_value (entry_state sc s) client)))\<rparr>))"
  using assms
  by (cases sc)
     (simp_all add: upsertClient_def Let_def entry_state_def new_string_array_def
        updated_client_def)

lemma upsertClient_untracked:
  assumes "map_of (clientNodeMap s) cid = None"
  shows "upsertClient cid csn rsn ts ce sc nk md s =
    (True, (snd (Heap_add (nxt (entry_state sc s))
                  (snd (new_client_object
                     (inserted_client cid csn rsn ts ce (entry_scopes sc s) nk md)
                     (entry_state sc s)))))
       \<lparr>clientNodeMap := Map_set cid (Suc (nxt (entry_state sc s)))
            (clientNodeMap (entry_state sc s))\<rparr>)"
  using assms
  by (cases sc)
     (simp_all add: upsertClient_def Let_def entry_state_def entry_scopes_def
        new_string_array_def new_client_object_def inserted_client_def split_def)

lemma invar_entry_state: "invar s \<Longrightarrow> invar (entry_state sc s)"
  by (cases sc) (simp_all add: entry_state_def invar_new_string_array)

lemma entry_scopes_allocated:
  "(\<And>a. sc = Some a \<Longrightarrow> a < nxt s) \<Longrightarrow> entry_scopes sc s < nxt (entry_state sc s)"
  by (cases sc) (simp_all add: entry_state_def entry_scopes_def new_string_array_def)

lemma invar_upsertClient:
  assumes inv: "invar s" and sc: "\<And>a. sc = Some a \<Longrightarrow> a < nxt s"
  shows "invar (snd (upsertClient cid csn rsn ts ce sc nk md s))"
proof (cases "map_of (clientNodeMap s) cid")
  case None
  have "invar ((snd (Heap_add (nxt (entry_state sc s))
                  (snd (new_client_object
                     (inserted_client cid csn rsn ts ce (entry_scopes sc s) nk md)
                     (entry_state sc s)))))
       \<lparr>clientNodeMap := Map_set cid (Suc (nxt (entry_state sc s)))
            (clientNodeMap (entry_state sc s))\<rparr>)"
    using None entry_scopes_allocated[of sc s, OF sc]
    by (intro invar_insert invar_entry_state[OF inv]) (simp_all add: inserted_client_def)
  then show ?thesis by (simp add: upsertClient_untracked[OF None])
next
  case (Some client)
  have "map_ok s" using inv by (simp add: invar_def)
  then have "client \<in> set (tl (L s))"
    using map_of_SomeD[OF Some] by (force simp: map_ok_def)
  then have "invar (Heap_update client
       ((entry_state sc s)\<lparr>client_object := (client_object (entry_state sc s))
          (node_value (entry_state sc s) client :=
             updated_client csn rsn ts nk md
               (client_object (entry_state sc s) (node_value (entry_state sc s) client)))\<rparr>))"
    by (intro invar_update invar_entry_state[OF inv]) (simp_all add: updated_client_def)
  then show ?thesis by (simp add: upsertClient_tracked[OF Some])
qed

lemma invar_removeClient: "invar s \<Longrightarrow> invar (snd (removeClient cid s))"
  by (cases "map_of (clientNodeMap s) cid")
     (simp_all add: removeClient_def Let_def invar_remove)

lemma invar_do_call: "invar s \<Longrightarrow> invar (snd (do_call c s))"
proof (cases c)
  case (UpsertClient cid csn rsn ts ce sc nk md)
  assume inv: "invar s"
  show ?thesis
  proof (cases sc)
    case None
    have "invar (snd (upsertClient cid csn rsn ts ce None nk md s))"
      by (rule invar_upsertClient[OF inv]) simp
    then show ?thesis using None UpsertClient by simp
  next
    case (Some xs)
    have "invar (snd (new_string_array xs s))" by (rule invar_new_string_array[OF inv])
    then have "invar (snd (upsertClient cid csn rsn ts ce (Some (nxt s)) nk md
         (snd (new_string_array xs s))))"
      by (rule invar_upsertClient) (simp add: new_string_array_def)
    then show ?thesis using Some UpsertClient
      by (simp add: split_def) (simp add: new_string_array_def)
  qed
next
  case (RemoveClient cid)
  assume "invar s"
  then show ?thesis using RemoveClient by (simp add: invar_removeClient)
qed

lemma invar_run: "invar s \<Longrightarrow> invar (run cs s)"
  by (induction cs arbitrary: s) (simp_all add: invar_do_call)

lemma invar_reachable: "invar (run cs init)"
  by (rule invar_run[OF invar_init])

subsection \<open>The minimum sequence number\<close>

lemma tracked_conv: "tracked s = fst ` set (clientNodeMap s)"
  by (auto simp: tracked_def has_def map_of_eq_None_iff)

lemma invar_count:
  assumes "invar s"
  shows "length (clientNodeMap s) = length (L s) - 1"
proof -
  have m: "distinct (map snd (clientNodeMap s))"
      "set (map snd (clientNodeMap s)) = set (tl (L s))"
    and p: "pos_ok s"
    using assms by (simp_all add: invar_def map_ok_def)
  have "distinct (tl (L s))" using pos_ok_distinct[OF p] by (simp add: distinct_tl)
  then have "length (tl (L s)) = card (set (tl (L s)))" by (simp add: distinct_card)
  moreover have "length (map snd (clientNodeMap s)) = card (set (map snd (clientNodeMap s)))"
    using m(1) by (simp only: distinct_card)
  ultimately show ?thesis using m(2) by simp
qed

lemma tracked_keys:
  assumes "invar s"
  shows "(\<lambda>cid. referenceSequenceNumber (tracked_client s cid)) ` tracked s
           = key s ` set (tl (L s))"
proof -
  have m: "distinct (map fst (clientNodeMap s))"
      "set (map snd (clientNodeMap s)) = set (tl (L s))"
    using assms by (simp_all add: invar_def map_ok_def)
  have e: "referenceSequenceNumber (tracked_client s (fst e)) = key s (snd e)"
    if "e \<in> set (clientNodeMap s)" for e
    using map_of_distinct_fst[OF m(1) that] by (simp add: tracked_client_def get_def key_def)
  have "(\<lambda>cid. referenceSequenceNumber (tracked_client s cid)) ` tracked s
      = (\<lambda>e. referenceSequenceNumber (tracked_client s (fst e))) ` set (clientNodeMap s)"
    by (simp add: tracked_conv image_image)
  also have "\<dots> = (\<lambda>e. key s (snd e)) ` set (clientNodeMap s)"
    using e by (intro image_cong) simp_all
  also have "\<dots> = key s ` set (tl (L s))"
    using m(2) by (simp add: image_image[symmetric])
  finally show ?thesis .
qed

lemma root_is_minimum:
  assumes inv: "invar s" and c: "1 < length (L s)"
  shows "key s (L s ! 1) = Min (key s ` set (tl (L s)))"
proof (rule sym, rule Min_eqI)
  show "finite (key s ` set (tl (L s)))" by simp
next
  fix y assume "y \<in> key s ` set (tl (L s))"
  then obtain i where i: "i < length (tl (L s))" "y = key s (tl (L s) ! i)"
    by (auto simp: in_set_conv_nth)
  then have "Suc i < length (L s)" "y = keys s ! Suc i"
    by (simp_all add: nth_tl keys_def)
  moreover have "heap_list (keys s)" using inv by (simp add: invar_def)
  ultimately have "keys s ! 1 \<le> y" using heap_list_root[of "keys s" "Suc i"] by simp
  then show "key s (L s ! 1) \<le> y" using c by (simp add: keys_def)
next
  have "L s ! 1 = tl (L s) ! 0" using c by (simp add: nth_tl)
  moreover have "0 < length (tl (L s))" using c by simp
  ultimately have "L s ! 1 \<in> set (tl (L s))" by (metis nth_mem)
  then show "key s (L s ! 1) \<in> key s ` set (tl (L s))" by simp
qed

lemma getMinimumSequenceNumber_invar:
  assumes inv: "invar s"
  shows "getMinimumSequenceNumber s =
     (if tracked s = {} then - 1
      else Min ((\<lambda>cid. referenceSequenceNumber (tracked_client s cid)) ` tracked s))"
proof (cases "tracked s = {}")
  case True
  then have "clientNodeMap s = []" by (simp add: tracked_conv)
  then have "length (L s) - 1 = 0" using invar_count[OF inv] by simp
  then show ?thesis using True by (simp add: getMinimumSequenceNumber_def Heap_count_def)
next
  case False
  then have "clientNodeMap s \<noteq> []" by (simp add: tracked_conv)
  then have c: "1 < length (L s)" using invar_count[OF inv] by (cases "clientNodeMap s") auto
  then have "getMinimumSequenceNumber s = key s (L s ! 1)"
    by (simp add: getMinimumSequenceNumber_def Heap_count_def Heap_peek_def key_def)
  then show ?thesis using False root_is_minimum[OF inv c] tracked_keys[OF inv] by simp
qed

text \<open>
  Claim C1. After every sequence of \<^verbatim>\<open>upsertClient\<close> and \<^verbatim>\<open>removeClient\<close> calls on a new
  manager, \<^verbatim>\<open>getMinimumSequenceNumber\<close> returns \<open>-1\<close> when no client is tracked and otherwise
  the least reference sequence number among the states of the tracked clients.
\<close>

theorem getMinimumSequenceNumber_is_minimum:
  "getMinimumSequenceNumber (run cs init) =
     (if tracked (run cs init) = {} then - 1
      else Min ((\<lambda>cid. referenceSequenceNumber (tracked_client (run cs init) cid))
                  ` tracked (run cs init)))"
  by (rule getMinimumSequenceNumber_invar[OF invar_reachable])

text \<open>
  After the four calls of \<open>three_clients\<close> (A at 5, B at 2, C at 9, then B at 12) the minimum
  is 5, the least of the tracked clients' numbers; on a new manager it is \<open>-1\<close>.
\<close>

theorem getMinimumSequenceNumber_is_minimum_witness:
  "tracked (run three_clients init) \<noteq> {}
   \<and> getMinimumSequenceNumber (run three_clients init) = 5
   \<and> Min ((\<lambda>cid. referenceSequenceNumber (tracked_client (run three_clients init) cid))
            ` tracked (run three_clients init)) = 5
   \<and> tracked (run [] init) = {} \<and> getMinimumSequenceNumber (run [] init) = - 1"
proof -
  have "has (run three_clients init) ''A''" by code_simp
  then have t: "tracked (run three_clients init) \<noteq> {}" by (auto simp: tracked_def)
  have g: "getMinimumSequenceNumber (run three_clients init) = 5" by code_simp
  have e: "tracked (run [] init) = {}" by (simp add: tracked_conv init_def)
  show ?thesis
    using t g e getMinimumSequenceNumber_is_minimum[of three_clients]
      getMinimumSequenceNumber_is_minimum[of "[]"]
    by simp
qed

subsection \<open>The result of \<^verbatim>\<open>removeClient\<close>\<close>

lemma length_Map_delete:
  assumes d: "distinct (map fst m)" and k: "map_of m k = Some v"
  shows "Suc (length (Map_delete k m)) = length m"
  using assms
proof (induction m)
  case Nil
  then show ?case by simp
next
  case (Cons e m)
  show ?case
  proof (cases "fst e = k")
    case True
    then have "k \<notin> fst ` set m" using Cons.prems(1) by auto
    then have "filter (\<lambda>e. fst e \<noteq> k) m = m" by (auto simp: filter_id_conv)
    then show ?thesis using True by (simp add: Map_delete_def)
  next
    case False
    then have "map_of m k = Some v" using Cons.prems(2) by (cases e) (auto split: if_splits)
    then have "Suc (length (Map_delete k m)) = length m" using Cons by simp
    then show ?thesis using False by (simp add: Map_delete_def)
  qed
qed

text \<open>
  Claim C3. In every state that a sequence of calls reaches, \<^verbatim>\<open>removeClient\<close> of a client
  that is not tracked returns \<^verbatim>\<open>false\<close> and leaves the state as it is; of a client that
  is tracked it returns \<^verbatim>\<open>true\<close>, the count goes down by exactly one and the client is
  not tracked afterwards.
\<close>

theorem removeClient_returns:
  "(let s = run cs init; r = removeClient cid s; s' = snd r
    in if has s cid
       then fst r \<and> count s' + 1 = count s \<and> \<not> has s' cid
       else \<not> fst r \<and> s' = s)"
proof -
  have inv: "invar (run cs init)" by (rule invar_reachable)
  then have d: "distinct (map fst (clientNodeMap (run cs init)))"
    by (simp add: invar_def map_ok_def)
  show ?thesis
  proof (cases "map_of (clientNodeMap (run cs init)) cid")
    case None
    then show ?thesis by (simp add: Let_def has_def removeClient_def)
  next
    case (Some n)
    then show ?thesis using length_Map_delete[OF d Some]
      by (simp add: Let_def has_def removeClient_def count_def)
  qed
qed

text \<open>
  After the calls of \<open>three_clients\<close>: removing \<^verbatim>\<open>"A"\<close>, which is tracked, returns \<^verbatim>\<open>true\<close>
  and leaves two clients, without \<^verbatim>\<open>"A"\<close>; removing \<^verbatim>\<open>"Z"\<close>, which is not, returns
  \<^verbatim>\<open>false\<close> and changes nothing.
\<close>

theorem removeClient_returns_witness:
  "has (run three_clients init) ''A''
   \<and> fst (removeClient ''A'' (run three_clients init))
   \<and> count (snd (removeClient ''A'' (run three_clients init))) = 2
   \<and> \<not> has (snd (removeClient ''A'' (run three_clients init))) ''A''
   \<and> \<not> has (run three_clients init) ''Z''
   \<and> \<not> fst (removeClient ''Z'' (run three_clients init))
   \<and> snd (removeClient ''Z'' (run three_clients init)) = run three_clients init"
proof -
  have a: "has (run three_clients init) ''A''" by code_simp
  have z: "\<not> has (run three_clients init) ''Z''" by code_simp
  have c: "count (run three_clients init) = 3" by code_simp
  show ?thesis
    using a z c removeClient_returns[of three_clients "''A''"]
      removeClient_returns[of three_clients "''Z''"]
    by (simp add: Let_def)
qed

subsection \<open>One entry per client\<close>

lemma set_fst_Map_set: "fst ` set (Map_set k v m) = insert k (fst ` set m)"
  by (induction m) auto

lemma tracked_upsertClient:
  "tracked (snd (upsertClient cid csn rsn ts ce sc nk md s)) = insert cid (tracked s)"
proof (cases "map_of (clientNodeMap s) cid")
  case None
  then show ?thesis
    by (simp add: upsertClient_untracked tracked_conv set_fst_Map_set)
next
  case (Some n)
  then have "cid \<in> fst ` set (clientNodeMap s)" by (metis map_of_eq_None_iff option.distinct(1))
  then show ?thesis using Some
    by (auto simp: upsertClient_tracked tracked_conv)
qed

lemma tracked_new_string_array [simp]: "tracked (snd (new_string_array xs s)) = tracked s"
  by (simp add: tracked_conv new_string_array_def)

lemma tracked_do_upsert:
  "tracked (snd (do_call (UpsertClient cid csn rsn ts ce sc nk md) s)) = insert cid (tracked s)"
  by (cases sc) (simp_all add: split_def Let_def tracked_upsertClient)

lemma tracked_run_upserts:
  "list_all is_upsert cs \<Longrightarrow> tracked (run cs s) = tracked s \<union> call_id ` set cs"
proof (induction cs arbitrary: s)
  case Nil
  then show ?case by simp
next
  case (Cons c cs)
  then obtain cid csn rsn ts ce sc nk md where c: "c = UpsertClient cid csn rsn ts ce sc nk md"
    by (cases c) auto
  have "tracked (run (c # cs) s) = tracked (snd (do_call c s)) \<union> call_id ` set cs"
    using Cons by simp
  then show ?case unfolding c tracked_do_upsert by auto
qed

lemma count_card_tracked:
  assumes "invar s"
  shows "count s = card (tracked s)"
proof -
  have "distinct (map fst (clientNodeMap s))" using assms by (simp add: invar_def map_ok_def)
  then have "card (set (map fst (clientNodeMap s))) = length (map fst (clientNodeMap s))"
    by (rule distinct_card)
  then show ?thesis by (simp add: count_def tracked_conv)
qed

lemma heap_client_ids_invar:
  assumes inv: "invar s"
  shows "distinct (heap_client_ids s) \<and> set (heap_client_ids s) = Some ` tracked s"
proof -
  let ?f = "\<lambda>n. clientId (client_object s (node_value s n))"
  have m: "distinct (map fst (clientNodeMap s))" "distinct (map snd (clientNodeMap s))"
      "set (map snd (clientNodeMap s)) = set (tl (L s))"
      "\<And>e. e \<in> set (clientNodeMap s) \<Longrightarrow> ?f (snd e) = Some (fst e)"
    and p: "pos_ok s"
    using inv by (simp_all add: invar_def map_ok_def)
  have dl: "distinct (tl (L s))" using pos_ok_distinct[OF p] by (simp add: distinct_tl)
  have inj: "inj_on ?f (set (tl (L s)))"
  proof (rule inj_onI)
    fix a b assume a: "a \<in> set (tl (L s))" and b: "b \<in> set (tl (L s))" and eq: "?f a = ?f b"
    from a m(3) obtain ea where ea: "ea \<in> set (clientNodeMap s)" "snd ea = a" by force
    from b m(3) obtain eb where eb: "eb \<in> set (clientNodeMap s)" "snd eb = b" by force
    have "fst ea = fst eb" using m(4)[OF ea(1)] m(4)[OF eb(1)] ea(2) eb(2) eq by simp
    then have "map_of (clientNodeMap s) (fst ea) = Some (snd eb)"
      using map_of_distinct_fst[OF m(1) eb(1)] by simp
    moreover have "map_of (clientNodeMap s) (fst ea) = Some (snd ea)"
      by (rule map_of_distinct_fst[OF m(1) ea(1)])
    ultimately show "a = b" using ea(2) eb(2) by simp
  qed
  have "?f ` set (tl (L s)) = ?f ` (snd ` set (clientNodeMap s))"
    using m(3) by simp
  also have "\<dots> = (\<lambda>e. ?f (snd e)) ` set (clientNodeMap s)"
    by (simp only: image_image)
  also have "\<dots> = (\<lambda>e. Some (fst e)) ` set (clientNodeMap s)"
    using m(4) by (intro image_cong) simp_all
  also have "\<dots> = Some ` tracked s" by (simp add: tracked_conv image_image)
  finally have "set (heap_client_ids s) = Some ` tracked s" by (simp add: heap_client_ids_def)
  moreover have "distinct (heap_client_ids s)"
    using dl inj by (simp add: heap_client_ids_def distinct_map)
  ultimately show ?thesis by simp
qed

text \<open>
  Claim C4. After every sequence of calls the manager holds one entry for a client: the
  keys of the map are distinct, the entries of the heap have distinct client identifiers,
  which are those of the tracked clients, and the count is the number of tracked clients
  and the heap's count. Hence after a sequence of \<^verbatim>\<open>upsertClient\<close> calls only, the count is
  the number of distinct client identifiers in the calls.
\<close>

theorem one_entry_per_client:
  "distinct (map fst (clientNodeMap (run cs init)))
   \<and> distinct (heap_client_ids (run cs init))
   \<and> set (heap_client_ids (run cs init)) = Some ` tracked (run cs init)
   \<and> count (run cs init) = card (tracked (run cs init))
   \<and> int (count (run cs init)) = Heap_count (run cs init)
   \<and> (list_all is_upsert cs \<longrightarrow> count (run cs init) = card (call_id ` set cs))"
proof -
  have inv: "invar (run cs init)" by (rule invar_reachable)
  have t0: "tracked init = {}" by (simp add: tracked_conv init_def)
  have "L (run cs init) \<noteq> []" using inv by (simp add: invar_def pos_ok_def)
  then have "int (count (run cs init)) = Heap_count (run cs init)"
    using invar_count[OF inv] by (cases "L (run cs init)") (simp_all add: count_def Heap_count_def)
  moreover have "distinct (map fst (clientNodeMap (run cs init)))"
    using inv by (simp add: invar_def map_ok_def)
  moreover have "list_all is_upsert cs \<longrightarrow> count (run cs init) = card (call_id ` set cs)"
    using count_card_tracked[OF inv] tracked_run_upserts[of cs init] t0 by simp
  ultimately show ?thesis
    using heap_client_ids_invar[OF inv] count_card_tracked[OF inv] by simp
qed

text \<open>
  Four calls of \<^verbatim>\<open>upsertClient\<close> for three distinct clients: the count is 3.
\<close>

theorem one_entry_per_client_witness:
  "list_all is_upsert three_clients \<and> count (run three_clients init) = 3"
proof -
  have u: "list_all is_upsert three_clients" by (simp add: three_clients_def)
  have "card (call_id ` set three_clients) = length (remdups (map call_id three_clients))"
    by (simp only: card_set[symmetric] set_map)
  also have "\<dots> = 3" by (simp add: three_clients_def)
  finally have "card (call_id ` set three_clients) = 3" .
  then show ?thesis using u one_entry_per_client[of three_clients] by simp
qed

subsection \<open>Scopes\<close>

lemma do_call_upsert:
  "do_call (UpsertClient cid csn rsn ts ce sc nk md) s
     = upsertClient cid csn rsn ts ce (fst (pass_scopes sc s)) nk md (snd (pass_scopes sc s))"
  by (simp add: split_def Let_def)

lemma pass_scopes_frame [simp]:
  "clientNodeMap (snd (pass_scopes sc s)) = clientNodeMap s"
  "L (snd (pass_scopes sc s)) = L s"
  "node_value (snd (pass_scopes sc s)) = node_value s"
  "client_object (snd (pass_scopes sc s)) = client_object s"
  by (cases sc; simp add: new_string_array_def split_def)+

lemma entry_string_array_old:
  "a < nxt s \<Longrightarrow>
   string_array (entry_state (fst (pass_scopes sc s)) (snd (pass_scopes sc s))) a
     = string_array s a"
  by (cases sc) (simp_all add: entry_state_def new_string_array_def split_def)

lemma entry_string_array_new:
  "string_array (entry_state (fst (pass_scopes sc s)) (snd (pass_scopes sc s)))
     (entry_scopes (fst (pass_scopes sc s)) (snd (pass_scopes sc s)))
     = (case sc of None \<Rightarrow> [] | Some xs \<Rightarrow> xs)"
  by (cases sc) (simp_all add: entry_state_def entry_scopes_def new_string_array_def split_def)

text \<open>
  One call of \<^verbatim>\<open>upsertClient\<close>, seen at the client of the call: when the client is tracked
  the call keeps the tracked object and leaves its scopes as they are, reference and
  content; when it is not, the scopes stored are those the call passes.
\<close>

lemma scopes_of_one_call:
  "(let s = run cs init;
        s' = snd (do_call (UpsertClient cid csn rsn ts ce sc nk md) s)
    in if has s cid
       then get s' cid = get s cid
            \<and> scopes (tracked_client s' cid) = scopes (tracked_client s cid)
            \<and> stored_scopes s' cid = stored_scopes s cid
       else stored_scopes s' cid = (case sc of None \<Rightarrow> [] | Some xs \<Rightarrow> xs))"
proof -
  define s where "s = run cs init"
  define a where "a = fst (pass_scopes sc s)"
  define s1 where "s1 = snd (pass_scopes sc s)"
  define s' where "s' = snd (do_call (UpsertClient cid csn rsn ts ce sc nk md) s)"
  have inv: "invar s" unfolding s_def by (rule invar_reachable)
  have s': "s' = snd (upsertClient cid csn rsn ts ce a nk md s1)"
    by (simp only: s'_def do_call_upsert a_def s1_def)
  have fr: "clientNodeMap s1 = clientNodeMap s" "node_value s1 = node_value s"
      "client_object s1 = client_object s" "L s1 = L s"
    by (simp_all add: s1_def)
  have "if has s cid
       then get s' cid = get s cid
            \<and> scopes (tracked_client s' cid) = scopes (tracked_client s cid)
            \<and> stored_scopes s' cid = stored_scopes s cid
       else stored_scopes s' cid = (case sc of None \<Rightarrow> [] | Some xs \<Rightarrow> xs)"
  proof (cases "map_of (clientNodeMap s) cid")
    case None
    then have n1: "map_of (clientNodeMap s1) cid = None" by (simp add: fr)
    have g: "get s' cid = Some (nxt (entry_state a s1))"
      by (simp add: s' upsertClient_untracked[OF n1] get_def new_client_object_def)
    have o: "client_object s' (nxt (entry_state a s1))
        = inserted_client cid csn rsn ts ce (entry_scopes a s1) nk md"
      by (simp add: s' upsertClient_untracked[OF n1] new_client_object_def)
    have sa: "string_array s' = string_array (entry_state a s1)"
      by (simp add: s' upsertClient_untracked[OF n1] new_client_object_def)
    have "stored_scopes s' cid = string_array (entry_state a s1) (entry_scopes a s1)"
      by (simp add: stored_scopes_def tracked_client_def g o sa inserted_client_def)
    then show ?thesis using None entry_string_array_new[of sc s]
      by (simp add: has_def a_def s1_def)
  next
    case (Some client)
    then have c1: "map_of (clientNodeMap s1) cid = Some client" by (simp add: fr)
    let ?v = "node_value s client"
    have g: "get s cid = Some ?v" using Some by (simp add: get_def)
    have g': "get s' cid = Some ?v"
      using Some by (simp add: s' upsertClient_tracked[OF c1] get_def fr)
    have o: "client_object s' ?v = updated_client csn rsn ts nk md (client_object s ?v)"
      by (simp add: s' upsertClient_tracked[OF c1] fr)
    have sa: "string_array s' = string_array (entry_state a s1)"
      by (simp add: s' upsertClient_tracked[OF c1])
    have "client \<in> set (tl (L s))"
      using inv map_of_SomeD[OF Some] by (force simp: invar_def map_ok_def)
    then have "client \<in> set (L s)" by (metis list.set_sel(2) tl_Nil)
    then have "scopes (client_object s ?v) < nxt s"
      using inv by (simp add: invar_def alloc_ok_def)
    then have "string_array (entry_state a s1) (scopes (client_object s ?v))
        = string_array s (scopes (client_object s ?v))"
      unfolding a_def s1_def by (rule entry_string_array_old)
    then show ?thesis using Some
      by (simp add: has_def g g' o sa stored_scopes_def tracked_client_def updated_client_def)
  qed
  then show ?thesis unfolding Let_def s'_def s_def .
qed

text \<open>
  Every call leaves the scopes stored for the other clients as they are: the scopes of a
  tracked client are at an address in use, a call writes arrays of strings at new addresses
  only, and no call assigns the \<open>scopes\<close> of an object that exists.
\<close>

lemma tracked_allocated:
  assumes inv: "invar s" and n: "map_of (clientNodeMap s) cid = Some n"
  shows "n < nxt s \<and> node_value s n < nxt s
    \<and> scopes (client_object s (node_value s n)) < nxt s"
proof -
  have m: "set (map snd (clientNodeMap s)) = set (tl (L s))" and al: "alloc_ok s"
    using inv by (simp_all add: invar_def map_ok_def)
  have "set (tl (L s)) \<subseteq> set (L s)" by (metis list.set_sel(2) subsetI tl_Nil)
  then have "n \<in> set (L s)" using map_of_SomeD[OF n] m by force
  then show ?thesis using al by (simp add: alloc_ok_def)
qed

lemma entry_nxt: "nxt s \<le> nxt (entry_state (fst (pass_scopes sc s)) (snd (pass_scopes sc s)))"
  by (cases sc) (simp_all add: entry_state_def new_string_array_def split_def)

lemma tracked_scopes_removeClient:
  "tracked_scopes (snd (removeClient cid0 s)) = (tracked_scopes s)(cid0 := None)"
proof (rule ext)
  fix cid
  show "tracked_scopes (snd (removeClient cid0 s)) cid = ((tracked_scopes s)(cid0 := None)) cid"
  proof (cases "map_of (clientNodeMap s) cid0")
    case None
    then show ?thesis by (simp add: removeClient_def tracked_scopes_def has_def)
  next
    case (Some n)
    then show ?thesis
      by (auto simp: removeClient_def Let_def tracked_scopes_def has_def stored_scopes_def
          tracked_client_def get_def)
  qed
qed

lemma tracked_scopes_upsert:
  assumes inv: "invar s"
  shows "tracked_scopes (snd (do_call (UpsertClient cid0 csn rsn ts ce sc nk md) s))
    = first_supplied_step (UpsertClient cid0 csn rsn ts ce sc nk md) (tracked_scopes s)"
proof (rule ext)
  fix cid
  define a where "a = fst (pass_scopes sc s)"
  define s1 where "s1 = snd (pass_scopes sc s)"
  define es where "es = entry_state a s1"
  define s' where "s' = snd (do_call (UpsertClient cid0 csn rsn ts ce sc nk md) s)"
  have s': "s' = snd (upsertClient cid0 csn rsn ts ce a nk md s1)"
    by (simp only: s'_def do_call_upsert a_def s1_def)
  have fr: "clientNodeMap s1 = clientNodeMap s" "node_value s1 = node_value s"
      "client_object s1 = client_object s" "L s1 = L s"
    by (simp_all add: s1_def)
  have es: "clientNodeMap es = clientNodeMap s" "node_value es = node_value s"
      "client_object es = client_object s"
    by (simp_all add: es_def fr)
  have nx: "nxt s \<le> nxt es" unfolding es_def a_def s1_def by (rule entry_nxt)
  have old_str: "\<And>b. b < nxt s \<Longrightarrow> string_array es b = string_array s b"
    unfolding es_def a_def s1_def by (rule entry_string_array_old)
  have "tracked_scopes s' cid
      = first_supplied_step (UpsertClient cid0 csn rsn ts ce sc nk md) (tracked_scopes s) cid"
  proof (cases "map_of (clientNodeMap s) cid0")
    case (Some client)
    then have c1: "map_of (clientNodeMap s1) cid0 = Some client" by (simp add: fr)
    have up: "s' = Heap_update client (es\<lparr>client_object := (client_object es)
          (node_value es client := updated_client csn rsn ts nk md
              (client_object es (node_value es client)))\<rparr>)"
      by (simp add: s' upsertClient_tracked[OF c1] es_def)
    have mp: "clientNodeMap s' = clientNodeMap s" "node_value s' = node_value s"
      "string_array s' = string_array es"
      by (simp_all add: up es)
    have sc': "\<And>b. scopes (client_object s' b) = scopes (client_object s b)"
      by (simp add: up es updated_client_def)
    have same: "tracked_scopes s' cid = tracked_scopes s cid"
    proof (cases "map_of (clientNodeMap s) cid")
      case None
      then show ?thesis by (simp add: tracked_scopes_def has_def mp)
    next
      case n: (Some n)
      have "scopes (client_object s (node_value s n)) < nxt s"
        using tracked_allocated[OF inv n] by simp
      then have "string_array es (scopes (client_object s (node_value s n)))
          = string_array s (scopes (client_object s (node_value s n)))"
        by (rule old_str)
      then show ?thesis using n
        by (simp add: tracked_scopes_def has_def stored_scopes_def tracked_client_def get_def
            mp sc')
    qed
    have "tracked_scopes s cid0 \<noteq> None" using Some by (simp add: tracked_scopes_def has_def)
    then show ?thesis using same by (auto split: option.splits)
  next
    case None
    then have n1: "map_of (clientNodeMap s1) cid0 = None" by (simp add: fr)
    have ins: "s' = (snd (Heap_add (nxt es) (snd (new_client_object
          (inserted_client cid0 csn rsn ts ce (entry_scopes a s1) nk md) es))))
        \<lparr>clientNodeMap := Map_set cid0 (Suc (nxt es)) (clientNodeMap es)\<rparr>"
      by (simp add: s' upsertClient_untracked[OF n1] es_def)
    have mp: "map_of (clientNodeMap s') = (map_of (clientNodeMap s))(cid0 \<mapsto> Suc (nxt es))"
      by (rule ext) (simp add: ins es)
    have nv: "node_value s' = (node_value s)(Suc (nxt es) := nxt es)"
      by (simp add: ins new_client_object_def es)
    have co: "client_object s' = (client_object s)
        (nxt es := inserted_client cid0 csn rsn ts ce (entry_scopes a s1) nk md)"
      by (simp add: ins new_client_object_def es)
    have sa: "string_array s' = string_array es"
      by (simp add: ins new_client_object_def)
    have t0: "tracked_scopes s cid0 = None" using None by (simp add: tracked_scopes_def has_def)
    show ?thesis
    proof (cases "cid = cid0")
      case True
      have "string_array es (entry_scopes a s1) = (case sc of None \<Rightarrow> [] | Some xs \<Rightarrow> xs)"
        unfolding es_def a_def s1_def by (rule entry_string_array_new)
      then have "tracked_scopes s' cid0 = Some (case sc of None \<Rightarrow> [] | Some xs \<Rightarrow> xs)"
        by (simp add: tracked_scopes_def has_def stored_scopes_def tracked_client_def get_def
            mp nv co sa inserted_client_def)
      then show ?thesis using True t0 by simp
    next
      case False
      have "tracked_scopes s' cid = tracked_scopes s cid"
      proof (cases "map_of (clientNodeMap s) cid")
        case None
        then show ?thesis using False by (simp add: tracked_scopes_def has_def mp)
      next
        case n: (Some n)
        have al: "n < nxt s" "node_value s n < nxt s"
            "scopes (client_object s (node_value s n)) < nxt s"
          using tracked_allocated[OF inv n] by simp_all
        have "string_array es (scopes (client_object s (node_value s n)))
            = string_array s (scopes (client_object s (node_value s n)))"
          using al(3) by (rule old_str)
        moreover have "n \<noteq> Suc (nxt es)" "node_value s n \<noteq> nxt es" using al nx by simp_all
        ultimately show ?thesis using n False
          by (simp add: tracked_scopes_def has_def stored_scopes_def tracked_client_def get_def
              mp nv co sa)
      qed
      then show ?thesis using False t0 by simp
    qed
  qed
  then show "tracked_scopes (snd (do_call (UpsertClient cid0 csn rsn ts ce sc nk md) s)) cid
      = first_supplied_step (UpsertClient cid0 csn rsn ts ce sc nk md) (tracked_scopes s) cid"
    unfolding s'_def .
qed

lemma tracked_scopes_do_call:
  "invar s \<Longrightarrow> tracked_scopes (snd (do_call c s)) = first_supplied_step c (tracked_scopes s)"
proof (cases c)
  case (UpsertClient cid0 csn rsn ts ce sc nk md)
  assume "invar s"
  then show ?thesis unfolding UpsertClient by (rule tracked_scopes_upsert)
next
  case (RemoveClient cid0)
  then show ?thesis by (simp add: tracked_scopes_removeClient)
qed

lemma tracked_scopes_run:
  "invar s \<Longrightarrow> tracked_scopes (run cs s) = first_supplied_scopes cs (tracked_scopes s)"
proof (induction cs arbitrary: s)
  case Nil
  then show ?case by simp
next
  case (Cons c cs)
  have "invar (snd (do_call c s))" using Cons.prems by (rule invar_do_call)
  then have "tracked_scopes (run cs (snd (do_call c s)))
      = first_supplied_scopes cs (tracked_scopes (snd (do_call c s)))"
    by (rule Cons.IH)
  then show ?case using tracked_scopes_do_call[OF Cons.prems, of c] by simp
qed

lemma tracked_scopes_init: "tracked_scopes init = (\<lambda>cid. None)"
  by (rule ext) (simp add: tracked_scopes_def has_def init_def)

text \<open>
  Claim C9, as the code has it. After every sequence of \<^verbatim>\<open>upsertClient\<close> and
  \<^verbatim>\<open>removeClient\<close> calls on a new manager, the scopes stored for a tracked client are those
  supplied by the call that began to track it (the empty array when that call passed
  none): no later call, for this client or for another, changes them. In particular a call
  of \<^verbatim>\<open>upsertClient\<close> for a client that is tracked keeps the tracked object and leaves its
  scopes as they are, reference and content, whatever scopes the call passes.
\<close>

theorem upsertClient_scopes:
  "tracked_scopes (run cs init) = first_supplied_scopes cs (\<lambda>cid. None)
   \<and> (let s = run cs init;
           s' = snd (do_call (UpsertClient cid csn rsn ts ce sc nk md) s)
       in if has s cid
          then get s' cid = get s cid
               \<and> scopes (tracked_client s' cid) = scopes (tracked_client s cid)
               \<and> stored_scopes s' cid = stored_scopes s cid
          else stored_scopes s' cid = (case sc of None \<Rightarrow> [] | Some xs \<Rightarrow> xs))"
proof (rule conjI)
  show "tracked_scopes (run cs init) = first_supplied_scopes cs (\<lambda>cid. None)"
    using tracked_scopes_run[OF invar_init, of cs] by (simp add: tracked_scopes_init)
next
  show "let s = run cs init;
           s' = snd (do_call (UpsertClient cid csn rsn ts ce sc nk md) s)
       in if has s cid
          then get s' cid = get s cid
               \<and> scopes (tracked_client s' cid) = scopes (tracked_client s cid)
               \<and> stored_scopes s' cid = stored_scopes s cid
          else stored_scopes s' cid = (case sc of None \<Rightarrow> [] | Some xs \<Rightarrow> xs)"
    by (rule scopes_of_one_call)
qed

text \<open>
  On the state that tracks \<^verbatim>\<open>"X"\<close>: a call for \<^verbatim>\<open>"X"\<close> that passes \<^verbatim>\<open>doc:write\<close> leaves the
  scopes of \<^verbatim>\<open>"X"\<close> as they were; the same call for \<^verbatim>\<open>"Y"\<close> stores \<^verbatim>\<open>doc:write\<close>. After
  the calls of \<open>three_clients\<close> and the removal of \<^verbatim>\<open>"A"\<close>, the scopes of \<^verbatim>\<open>"B"\<close> are still
  the \<^verbatim>\<open>doc:read\<close> of the call that inserted it, and \<^verbatim>\<open>"A"\<close> has none.
\<close>

theorem upsertClient_scopes_witness:
  "has tracking_X ''X''
   \<and> stored_scopes
        (snd (do_call (UpsertClient ''X'' 2 3 101 True (Some [''doc:write'']) None JUndefined)
                tracking_X)) ''X''
     = stored_scopes tracking_X ''X''
   \<and> \<not> has tracking_X ''Y''
   \<and> stored_scopes
        (snd (do_call (UpsertClient ''Y'' 1 0 100 True (Some [''doc:write'']) None JUndefined)
                tracking_X)) ''Y''
     = [''doc:write'']
   \<and> tracked_scopes (run (three_clients @ [RemoveClient ''A'']) init) ''B''
     = Some [''doc:read'']
   \<and> tracked_scopes (run (three_clients @ [RemoveClient ''A'']) init) ''A'' = None"
proof -
  have x: "has tracking_X ''X''" by code_simp
  have y: "\<not> has tracking_X ''Y''" by code_simp
  have st: "tracked_scopes (run (three_clients @ [RemoveClient ''A'']) init)
      = first_supplied_scopes (three_clients @ [RemoveClient ''A'']) (\<lambda>cid. None)"
    by (rule upsertClient_scopes[THEN conjunct1])
  have b: "first_supplied_scopes (three_clients @ [RemoveClient ''A'']) (\<lambda>cid. None) ''B''
      = Some [''doc:read'']"
    by (simp add: three_clients_def)
  have a: "first_supplied_scopes (three_clients @ [RemoveClient ''A'']) (\<lambda>cid. None) ''A''
      = None"
    by (simp add: three_clients_def)
  have one: "stored_scopes
        (snd (do_call (UpsertClient ''X'' 2 3 101 True (Some [''doc:write'']) None JUndefined)
                tracking_X)) ''X''
     = stored_scopes tracking_X ''X''"
    using x
      upsertClient_scopes[THEN conjunct2, of "[UpsertClient ''X'' 1 0 100 True
          (Some [''doc:read'']) None (JString ''m'')]" "''X''" 2 3 101 True
          "Some [''doc:write'']" None JUndefined, folded tracking_X_def]
    by (simp add: Let_def)
  have two: "stored_scopes
        (snd (do_call (UpsertClient ''Y'' 1 0 100 True (Some [''doc:write'']) None JUndefined)
                tracking_X)) ''Y''
     = [''doc:write'']"
    using y
      upsertClient_scopes[THEN conjunct2, of "[UpsertClient ''X'' 1 0 100 True
          (Some [''doc:read'']) None (JString ''m'')]" "''Y''" 1 0 100 True
          "Some [''doc:write'']" None JUndefined, folded tracking_X_def]
    by (simp add: Let_def)
  show ?thesis using x y one two by (simp add: st a b)
qed

text \<open>
  Claim C9, as stated, asks that the stored scopes be those of the most recent call. In
  the state that tracks \<^verbatim>\<open>"X"\<close> with the scope \<^verbatim>\<open>doc:read\<close>, a further call of \<^verbatim>\<open>upsertClient\<close>
  for \<^verbatim>\<open>"X"\<close> that passes the scope \<^verbatim>\<open>doc:write\<close> leaves \<^verbatim>\<open>doc:read\<close> stored.
\<close>

theorem scopes_counterexample:
  "has tracking_X ''X''
   \<and> stored_scopes
        (snd (do_call (UpsertClient ''X'' 2 3 101 True (Some [''doc:write'']) None JUndefined)
                tracking_X)) ''X''
     = [''doc:read'']
   \<and> [''doc:read''] \<noteq> [''doc:write'']"
  by (simp add: stored_scopes_def tracked_client_def) code_simp

subsection \<open>The snapshot of \<^verbatim>\<open>cloneValues\<close>\<close>

lemma cloneValues_loop_correct:
  assumes "\<forall>e \<in> set es. node_value s (snd e) < nxt s"
  shows "clientNodeMap (cloneValues_loop es res s) = clientNodeMap s
    \<and> L (cloneValues_loop es res s) = L s
    \<and> node_value (cloneValues_loop es res s) = node_value s
    \<and> node_position (cloneValues_loop es res s) = node_position s
    \<and> string_array (cloneValues_loop es res s) = string_array s
    \<and> nxt (cloneValues_loop es res s) = nxt s + length es
    \<and> (\<forall>a < nxt s. client_object (cloneValues_loop es res s) a = client_object s a)
    \<and> client_array (cloneValues_loop es res s) res
        = client_array s res @ [nxt s ..< nxt s + length es]
    \<and> map (client_object (cloneValues_loop es res s)) [nxt s ..< nxt s + length es]
        = map (\<lambda>e. client_object s (node_value s (snd e))) es"
  using assms
proof (induction es arbitrary: s)
  case Nil
  then show ?case by simp
next
  case (Cons e es)
  define s2 where "s2 = s\<lparr>client_object := (client_object s)
        (nxt s := client_object s (node_value s (snd e))), nxt := Suc (nxt s),
      client_array := (client_array s)(res := client_array s res @ [nxt s])\<rparr>"
  have step: "cloneValues_loop (e # es) res s = cloneValues_loop es res s2"
    by (simp add: new_client_object_def Let_def s2_def)
  have s2: "clientNodeMap s2 = clientNodeMap s" "L s2 = L s" "node_value s2 = node_value s"
    "node_position s2 = node_position s" "string_array s2 = string_array s"
    "nxt s2 = Suc (nxt s)"
    "client_object s2 = (client_object s)(nxt s := client_object s (node_value s (snd e)))"
    "client_array s2 res = client_array s res @ [nxt s]"
    by (simp_all add: s2_def)
  have src: "\<forall>e \<in> set es. node_value s2 (snd e) < nxt s2"
    using Cons.prems by (simp add: s2 less_Suc_eq)
  let ?s' = "cloneValues_loop es res s2"
  note IH = Cons.IH[OF src, unfolded s2]
  have c1: "clientNodeMap ?s' = clientNodeMap s" using IH by blast
  have c2: "L ?s' = L s" using IH by blast
  have c3: "node_value ?s' = node_value s" using IH by blast
  have c4: "node_position ?s' = node_position s" using IH by blast
  have c5: "string_array ?s' = string_array s" using IH by blast
  have "nxt ?s' = Suc (nxt s) + length es" using IH by blast
  then have c6: "nxt ?s' = nxt s + length (e # es)" by simp
  have i7: "\<forall>a < Suc (nxt s). client_object ?s' a
      = ((client_object s)(nxt s := client_object s (node_value s (snd e)))) a"
    using IH by blast
  have c7: "\<forall>a < nxt s. client_object ?s' a = client_object s a"
    using i7 by (simp add: less_Suc_eq)
  have first: "client_object ?s' (nxt s) = client_object s (node_value s (snd e))"
    using i7 by simp
  have i8: "client_array ?s' res
      = (client_array s res @ [nxt s]) @ [Suc (nxt s) ..< Suc (nxt s) + length es]"
    using IH by blast
  have i9: "map (client_object ?s') [Suc (nxt s) ..< Suc (nxt s) + length es]
      = map (\<lambda>e'. ((client_object s)(nxt s := client_object s (node_value s (snd e))))
                     (node_value s (snd e'))) es"
    using IH by blast
  have "\<forall>e' \<in> set es. node_value s (snd e') \<noteq> nxt s" using Cons.prems by auto
  then have rest: "map (client_object ?s') [Suc (nxt s) ..< Suc (nxt s) + length es]
      = map (\<lambda>e. client_object s (node_value s (snd e))) es"
    unfolding i9 by (intro map_cong) simp_all
  have upt: "[nxt s ..< nxt s + length (e # es)]
      = nxt s # [Suc (nxt s) ..< Suc (nxt s) + length es]"
    by (subst upt_conv_Cons) simp_all
  have c8: "client_array ?s' res = client_array s res @ [nxt s ..< nxt s + length (e # es)]"
    unfolding i8 upt by simp
  have c9: "map (client_object ?s') [nxt s ..< nxt s + length (e # es)]
      = map (\<lambda>e. client_object s (node_value s (snd e))) (e # es)"
    unfolding upt using first rest by simp
  show ?case
    unfolding step by (intro conjI) (fact c1 c2 c3 c4 c5 c6 c7 c8 c9)+
qed

lemma cloneValues_correct:
  assumes inv: "invar s"
  shows "fst (cloneValues s) = nxt s
    \<and> clientNodeMap (snd (cloneValues s)) = clientNodeMap s
    \<and> L (snd (cloneValues s)) = L s
    \<and> node_value (snd (cloneValues s)) = node_value s
    \<and> string_array (snd (cloneValues s)) = string_array s
    \<and> (\<forall>a < nxt s. client_object (snd (cloneValues s)) a = client_object s a)
    \<and> client_array (snd (cloneValues s)) (nxt s) = [Suc (nxt s) ..< Suc (nxt s) + count s]
    \<and> map (client_object (snd (cloneValues s))) (client_array (snd (cloneValues s)) (nxt s))
        = map (\<lambda>e. client_object s (node_value s (snd e))) (clientNodeMap s)"
proof -
  define s1 where "s1 = s\<lparr>client_array := (client_array s)(nxt s := []), nxt := Suc (nxt s)\<rparr>"
  have s1: "clientNodeMap s1 = clientNodeMap s" "L s1 = L s" "node_value s1 = node_value s"
    "node_position s1 = node_position s" "string_array s1 = string_array s"
    "nxt s1 = Suc (nxt s)" "client_object s1 = client_object s"
    "client_array s1 (nxt s) = []"
    by (simp_all add: s1_def)
  have cv: "cloneValues s = (nxt s, cloneValues_loop (clientNodeMap s) (nxt s) s1)"
    by (simp add: cloneValues_def new_client_array_def s1_def)
  have m: "set (map snd (clientNodeMap s)) = set (tl (L s))" and al: "alloc_ok s"
    and p: "pos_ok s"
    using inv by (simp_all add: invar_def map_ok_def)
  have sub: "set (tl (L s)) \<subseteq> set (L s)" by (metis list.set_sel(2) subsetI tl_Nil)
  have "\<forall>e \<in> set (clientNodeMap s). node_value s (snd e) < nxt s"
    using m sub al by (force simp: alloc_ok_def)
  then have src: "\<forall>e \<in> set (clientNodeMap s). node_value s1 (snd e) < nxt s1"
    by (simp add: s1 less_Suc_eq)
  let ?s' = "cloneValues_loop (clientNodeMap s) (nxt s) s1"
  note lp = cloneValues_loop_correct[OF src, of "nxt s", unfolded s1]
  have c1: "clientNodeMap ?s' = clientNodeMap s" using lp by blast
  have c2: "L ?s' = L s" using lp by blast
  have c3: "node_value ?s' = node_value s" using lp by blast
  have c5: "string_array ?s' = string_array s" using lp by blast
  have "\<forall>a < Suc (nxt s). client_object ?s' a = client_object s a" using lp by blast
  then have c7: "\<forall>a < nxt s. client_object ?s' a = client_object s a" by simp
  have "client_array ?s' (nxt s)
      = [] @ [Suc (nxt s) ..< Suc (nxt s) + length (clientNodeMap s)]"
    using lp by blast
  then have c8: "client_array ?s' (nxt s) = [Suc (nxt s) ..< Suc (nxt s) + count s]"
    by (simp add: count_def)
  have "map (client_object ?s') [Suc (nxt s) ..< Suc (nxt s) + length (clientNodeMap s)]
      = map (\<lambda>e. client_object s (node_value s (snd e))) (clientNodeMap s)"
    using lp by blast
  then have c9: "map (client_object ?s') (client_array ?s' (nxt s))
      = map (\<lambda>e. client_object s (node_value s (snd e))) (clientNodeMap s)"
    unfolding c8 by (simp add: count_def)
  show ?thesis
    unfolding cv fst_conv snd_conv by (intro conjI refl) (fact c1 c2 c3 c5 c7 c8 c9)+
qed

text \<open>
  What a caller observes depends on the map, the heap's array, the nodes' values, the
  arrays of strings and the client states at the addresses in use.
\<close>

lemma observe_cong:
  assumes inv: "invar s"
    and fr: "clientNodeMap t = clientNodeMap s" "L t = L s" "node_value t = node_value s"
      "string_array t = string_array s"
    and ob: "\<forall>a < nxt s. client_object t a = client_object s a"
  shows "observe t cid = observe s cid"
proof -
  have m: "set (map snd (clientNodeMap s)) = set (tl (L s))" and al: "alloc_ok s"
    using inv by (simp_all add: invar_def map_ok_def)
  have sub: "set (tl (L s)) \<subseteq> set (L s)" by (metis list.set_sel(2) subsetI tl_Nil)
  have val: "\<And>n. n \<in> set (L s) \<Longrightarrow> client_object t (node_value s n) = client_object s (node_value s n)"
    using al ob by (simp add: alloc_ok_def)
  have view: "\<And>n. n \<in> set (L s) \<Longrightarrow> client_view t (node_value s n) = client_view s (node_value s n)"
    using val by (simp add: client_view_def fr)
  have pk: "peek t = peek s" by (simp add: peek_def Heap_peek_def fr)
  have pv: "map_option (client_view t) (peek s) = map_option (client_view s) (peek s)"
    using view[of "L s ! 1"] by (simp add: peek_def Heap_peek_def)
  have gt: "get t cid = get s cid" by (simp add: get_def fr cong: option.case_cong)
  have gv: "map_option (client_view t) (get s cid) = map_option (client_view s) (get s cid)"
  proof (cases "map_of (clientNodeMap s) cid")
    case None
    then show ?thesis by (simp add: get_def)
  next
    case (Some n)
    then have "n \<in> set (L s)" using map_of_SomeD[OF Some] m sub by force
    then show ?thesis using Some view[of n] by (simp add: get_def)
  qed
  have mn: "getMinimumSequenceNumber t = getMinimumSequenceNumber s"
    using val[of "L s ! 1"]
    by (simp add: getMinimumSequenceNumber_def Heap_count_def Heap_peek_def fr)
  show ?thesis by (simp add: observe_def pk pv gt gv mn)
qed

text \<open>
  Claim C8, as the code has it. In every state that a sequence of calls reaches,
  \<^verbatim>\<open>cloneValues\<close> returns a new array of new objects, one for each tracked client in the
  order of the map, with the fields of the tracked states; no element is the object that
  \<^verbatim>\<open>get\<close> or \<^verbatim>\<open>peek\<close> returns. The call itself, any change of the returned array and any
  assignment to the fields of a returned element leave the results of \<^verbatim>\<open>peek\<close>, \<^verbatim>\<open>get\<close>
  and \<^verbatim>\<open>getMinimumSequenceNumber\<close> as they are.
\<close>

theorem cloneValues_shallow_copy:
  "(let s = run cs init; res = fst (cloneValues s); s' = snd (cloneValues s)
    in map (client_object s') (client_array s' res)
         = map (tracked_client s) (map fst (clientNodeMap s))
       \<and> client_array s' res = [Suc (nxt s) ..< Suc (nxt s) + count s]
       \<and> get s cid \<notin> Some ` set (client_array s' res)
       \<and> peek s \<notin> Some ` set (client_array s' res)
       \<and> observe s' cid = observe s cid
       \<and> observe (mutate res (ReplaceSequence xs) s') cid = observe s' cid
       \<and> observe (mutate res (ReplaceElement i r) s') cid = observe s' cid)"
proof -
  define s where "s = run cs init"
  define s' where "s' = snd (cloneValues s)"
  have inv: "invar s" unfolding s_def by (rule invar_reachable)
  note cv = cloneValues_correct[OF inv, folded s'_def]
  have res: "fst (cloneValues s) = nxt s" using cv by blast
  have fr: "clientNodeMap s' = clientNodeMap s" "L s' = L s" "node_value s' = node_value s"
      "string_array s' = string_array s"
    using cv by blast+
  have ob: "\<forall>a < nxt s. client_object s' a = client_object s a" using cv by blast
  have arr: "client_array s' (nxt s) = [Suc (nxt s) ..< Suc (nxt s) + count s]"
    using cv by blast
  have cp: "map (client_object s') (client_array s' (nxt s))
      = map (\<lambda>e. client_object s (node_value s (snd e))) (clientNodeMap s)"
    using cv by blast
  have m: "distinct (map fst (clientNodeMap s))"
      "set (map snd (clientNodeMap s)) = set (tl (L s))" and al: "alloc_ok s"
    using inv by (simp_all add: invar_def map_ok_def)
  have sub: "set (tl (L s)) \<subseteq> set (L s)" by (metis list.set_sel(2) subsetI tl_Nil)
  have "map (tracked_client s) (map fst (clientNodeMap s))
      = map (\<lambda>e. client_object s (node_value s (snd e))) (clientNodeMap s)"
    using map_of_distinct_fst[OF m(1)] by (simp add: tracked_client_def get_def)
  then have a1: "map (client_object s') (client_array s' (nxt s))
      = map (tracked_client s) (map fst (clientNodeMap s))"
    using cp by simp
  have old: "\<And>n. n \<in> set (L s) \<Longrightarrow> node_value s n < nxt s"
    using al by (simp add: alloc_ok_def)
  have a3: "get s cid \<notin> Some ` set (client_array s' (nxt s))"
  proof (cases "map_of (clientNodeMap s) cid")
    case None
    then show ?thesis by (simp add: get_def)
  next
    case (Some n)
    then have "n \<in> set (L s)" using map_of_SomeD[OF Some] m(2) sub by force
    then show ?thesis using Some old[of n] by (auto simp: get_def arr)
  qed
  have a4: "peek s \<notin> Some ` set (client_array s' (nxt s))"
    using old[of "L s ! 1"] by (auto simp: peek_def Heap_peek_def arr)
  have a5: "observe s' cid = observe s cid"
    by (rule observe_cong[OF inv fr ob])
  have "observe (mutate (nxt s) (ReplaceSequence xs) s') cid = observe s cid"
    by (rule observe_cong[OF inv]) (simp_all add: fr ob)
  then have a6: "observe (mutate (nxt s) (ReplaceSequence xs) s') cid = observe s' cid"
    using a5 by simp
  have "observe (mutate (nxt s) (ReplaceElement i r) s') cid = observe s cid"
  proof (rule observe_cong[OF inv])
    have "client_array s' (nxt s) ! i = Suc (nxt s) + i" if "i < length (client_array s' (nxt s))"
      using that unfolding arr by (simp del: upt_Suc)
    then show "\<forall>a<nxt s. client_object (mutate (nxt s) (ReplaceElement i r) s') a = client_object s a"
      using ob by auto
  qed (simp_all add: fr)
  then have a7: "observe (mutate (nxt s) (ReplaceElement i r) s') cid = observe s' cid"
    using a5 by simp
  show ?thesis
    unfolding Let_def s_def[symmetric] s'_def[symmetric] res
    by (intro conjI) (fact a1 arr a3 a4 a5 a6 a7)+
qed

text \<open>
  On the state that tracks \<^verbatim>\<open>"X"\<close> (its object is at address 4): the clone is the one new
  object at address 7 with the same fields; emptying the returned array, or overwriting
  every field of its element, leaves what the caller observes of \<^verbatim>\<open>"X"\<close> unchanged.
\<close>

theorem cloneValues_shallow_copy_witness:
  "client_array (snd clone_of_X) (fst clone_of_X) = [7]
   \<and> get tracking_X ''X'' = Some 4
   \<and> client_object (snd clone_of_X) 7 = client_object tracking_X 4
   \<and> observe (mutate (fst clone_of_X) (ReplaceSequence []) (snd clone_of_X)) ''X''
       = observe tracking_X ''X''
   \<and> observe (mutate (fst clone_of_X) (ReplaceElement 0 (comparer_min 0)) (snd clone_of_X)) ''X''
       = observe tracking_X ''X''"
proof -
  have n: "nxt tracking_X = 6" by code_simp
  have c: "count tracking_X = 1" by code_simp
  have g: "get tracking_X ''X'' = Some 4" by code_simp
  have m: "map fst (clientNodeMap tracking_X) = [''X'']" by code_simp
  show ?thesis
    using n c g m
      cloneValues_shallow_copy[of "[UpsertClient ''X'' 1 0 100 True (Some [''doc:read'']) None
          (JString ''m'')]" "''X''" "[]" 0 "comparer_min 0", folded tracking_X_def]
    by (auto simp: Let_def tracked_client_def clone_of_X_def simp del: mutate.simps)
qed

text \<open>
  Claim C8, as stated, asks that no mutation of the returned elements affect what \<^verbatim>\<open>get\<close>
  returns. The copy is shallow: an element's \<open>scopes\<close> is the tracked state's own array.
  After \<^verbatim>\<open>doc:write\<close> is pushed onto the scopes of the element returned for \<^verbatim>\<open>"X"\<close>, the
  scopes seen through \<^verbatim>\<open>get("X")\<close> have changed.
\<close>

theorem cloneValues_scopes_counterexample:
  "stored_scopes (snd clone_of_X) ''X'' = [''doc:read'']
   \<and> stored_scopes clone_scopes_changed ''X'' = [''doc:read'', ''doc:write'']
   \<and> observe clone_scopes_changed ''X'' \<noteq> observe (snd clone_of_X) ''X''"
  by code_simp

end

